theory Spec2Isabelle
  imports Complex_Main "HOL-Library.Sublist"
begin

text \<open>
  A model of the page-selection logic of \<open>src/App.tsx\<close>: the parser
  \<open>parsePageString\<close>, which turns a page specification such as \<open>1, 3-5, 8\<close> into
  zero-based page indices, and the two handlers \<open>handleFileSelect\<close> and
  \<open>handleExtract\<close> that load a document and extract the pages. The JavaScript built-ins
  the parser relies on (\<open>Number\<close>, \<open>trim\<close>, \<open>split\<close>, arithmetic and comparison on
  doubles, \<open>Set\<close>, \<open>sort\<close>) are modelled first.
\<close>

section \<open>JavaScript numbers\<close>

text \<open>
  A JavaScript \<open>number\<close> is an IEEE-754 double. \<open>Fin q\<close> is the finite double whose
  value is the rational \<open>q\<close>; the sign of zero is not tracked (no operation of this
  program tells \<open>-0\<close> from \<open>+0\<close>: comparison, addition, subtraction and Set membership
  treat them alike).
\<close>

datatype jsnum = NaN | NInf | Fin rat | PInf

text \<open>The number of binary digits of a natural number.\<close>

fun bitlen :: "nat \<Rightarrow> nat" where
  "bitlen n = (if n = 0 then 0 else Suc (bitlen (n div 2)))"

declare bitlen.simps [simp del]

text \<open>The exponent \<open>e\<close> with \<open>2^e \<le> a < 2^(e+1)\<close>, for a positive rational \<open>a\<close>.\<close>

definition flog2 :: "rat \<Rightarrow> int" where
  "flog2 a =
     (let (p, d) = quotient_of a;
          k = int (bitlen (nat p)) - int (bitlen (nat d))
      in if 2 powi k \<le> a then k else k - 1)"

definition round_half_even :: "rat \<Rightarrow> int" where
  "round_half_even x =
     (let f = \<lfloor>x\<rfloor>; r = x - of_int f
      in if r < 1 / 2 then f else if 1 / 2 < r then f + 1
         else if even f then f else f + 1)"

text \<open>
  Rounding of a rational to the nearest double, ties to even: 53 significant bits,
  exponents from -1022 (below it the spacing stays at \<open>2^-1074\<close>), overflow to infinity
  from \<open>2^1024\<close>.
\<close>

definition dbl_round :: "rat \<Rightarrow> jsnum" where
  "dbl_round q =
     (if q = 0 then Fin 0
      else let a = \<bar>q\<bar>;
               e = max (flog2 a) (- 1022);
               u = 2 powi (e - 52);
               r = of_int (round_half_even (a / u)) * u
           in if 2 ^ 1024 \<le> r then (if q < 0 then NInf else PInf)
              else Fin (if q < 0 then - r else r))"

definition isNaN :: "jsnum \<Rightarrow> bool" where
  "isNaN x = (x = NaN)"

fun js_neg :: "jsnum \<Rightarrow> jsnum" where
  "js_neg NaN = NaN"
| "js_neg NInf = PInf"
| "js_neg PInf = NInf"
| "js_neg (Fin q) = Fin (- q)"

text \<open>\<open>a + b\<close> on doubles.\<close>

fun js_add :: "jsnum \<Rightarrow> jsnum \<Rightarrow> jsnum" where
  "js_add NaN _ = NaN"
| "js_add _ NaN = NaN"
| "js_add PInf NInf = NaN"
| "js_add NInf PInf = NaN"
| "js_add PInf _ = PInf"
| "js_add _ PInf = PInf"
| "js_add NInf _ = NInf"
| "js_add _ NInf = NInf"
| "js_add (Fin a) (Fin b) = dbl_round (a + b)"

text \<open>\<open>a - b\<close> on doubles.\<close>

definition js_sub :: "jsnum \<Rightarrow> jsnum \<Rightarrow> jsnum" where
  "js_sub a b = js_add a (js_neg b)"

text \<open>\<open>a < b\<close> on doubles: false as soon as one side is NaN.\<close>

fun js_lt :: "jsnum \<Rightarrow> jsnum \<Rightarrow> bool" where
  "js_lt NaN _ = False"
| "js_lt _ NaN = False"
| "js_lt _ NInf = False"
| "js_lt NInf _ = True"
| "js_lt PInf _ = False"
| "js_lt _ PInf = True"
| "js_lt (Fin a) (Fin b) = (a < b)"

text \<open>\<open>a > b\<close> and \<open>a <= b\<close> on doubles.\<close>

definition js_gt :: "jsnum \<Rightarrow> jsnum \<Rightarrow> bool" where
  "js_gt a b = js_lt b a"

definition js_le :: "jsnum \<Rightarrow> jsnum \<Rightarrow> bool" where
  "js_le a b = (js_lt a b \<or> (a = b \<and> a \<noteq> NaN))"

section \<open>JavaScript strings\<close>

text \<open>
  A string is a list of characters, one per UTF-16 code unit; the code units above
  U+00FF have no counterpart here. None of them is a digit, a sign, a comma or a hyphen
  of the page syntax.
\<close>

text \<open>White space and line terminators among the first 256 code units, as
  \<open>String.prototype.trim\<close> and the numeric-string grammar define them.\<close>

definition is_ws :: "char \<Rightarrow> bool" where
  "is_ws c = (of_char c \<in> {9, 10, 11, 12, 13, 32, 160 :: nat})"

definition trim :: "string \<Rightarrow> string" where
  "trim s = rev (dropWhile is_ws (rev (dropWhile is_ws s)))"

text \<open>\<open>s.split(c)\<close> for a one-character separator: always at least one piece.\<close>

fun split :: "char \<Rightarrow> string \<Rightarrow> string list" where
  "split c [] = [[]]"
| "split c (x # xs) =
     (if x = c then [] # split c xs
      else (x # hd (split c xs)) # tl (split c xs))"

text \<open>\<open>s.includes(sub)\<close>.\<close>

fun str_includes :: "string \<Rightarrow> string \<Rightarrow> bool" where
  "str_includes [] sub = (sub = [])"
| "str_includes (x # xs) sub = (prefix sub (x # xs) \<or> str_includes xs sub)"

text \<open>\<open>s.toLowerCase()\<close> on the first 256 code units.\<close>

definition lower_char :: "char \<Rightarrow> char" where
  "lower_char c =
     (let n = of_char c :: nat
      in if (65 \<le> n \<and> n \<le> 90) \<or> (192 \<le> n \<and> n \<le> 222 \<and> n \<noteq> 215)
         then char_of (n + 32) else c)"

definition toLowerCase :: "string \<Rightarrow> string" where
  "toLowerCase s = map lower_char s"

text \<open>The decimal digits of a non-negative integer, as a template literal prints one
  (below \<open>10^21\<close>).\<close>

fun dec :: "nat \<Rightarrow> string" where
  "dec n = (if n < 10 then [char_of (48 + n)]
            else dec (n div 10) @ [char_of (48 + n mod 10)])"

declare dec.simps [simp del]

section \<open>Number(string)\<close>

definition is_digit :: "char \<Rightarrow> bool" where
  "is_digit c = (48 \<le> (of_char c :: nat) \<and> (of_char c :: nat) \<le> 57)"

text \<open>The value of a digit in base up to 16; \<open>None\<close> when the character is no digit.\<close>

definition digit_val :: "char \<Rightarrow> nat option" where
  "digit_val c =
     (let n = of_char c :: nat
      in if 48 \<le> n \<and> n \<le> 57 then Some (n - 48)
         else if 97 \<le> n \<and> n \<le> 102 then Some (n - 87)
         else if 65 \<le> n \<and> n \<le> 70 then Some (n - 55)
         else None)"

definition is_digit_in :: "nat \<Rightarrow> char \<Rightarrow> bool" where
  "is_digit_in b c = (case digit_val c of None \<Rightarrow> False | Some v \<Rightarrow> v < b)"

definition digits_val :: "nat \<Rightarrow> string \<Rightarrow> nat" where
  "digits_val b ds = foldl (\<lambda>acc c. acc * b + (case digit_val c of None \<Rightarrow> 0 | Some v \<Rightarrow> v)) 0 ds"

text \<open>ExponentPart, optional: \<open>e\<close> or \<open>E\<close>, an optional sign, at least one digit.\<close>

definition exponent_part :: "string \<Rightarrow> int option" where
  "exponent_part s =
     (case s of
        [] \<Rightarrow> Some 0
      | c # r \<Rightarrow>
          if c = CHR ''e'' \<or> c = CHR ''E'' then
            (let (neg, ds) = (case r of
                                [] \<Rightarrow> (False, [])
                              | d # r' \<Rightarrow> if d = CHR ''+'' then (False, r')
                                          else if d = CHR ''-'' then (True, r')
                                          else (False, r))
             in if ds \<noteq> [] \<and> list_all is_digit ds
                then Some (if neg then - int (digits_val 10 ds) else int (digits_val 10 ds))
                else None)
          else None)"

text \<open>
  StrUnsignedDecimalLiteral: \<open>Infinity\<close>, or digits with an optional fraction and an
  optional exponent, at least one digit before or after the point. The value is the
  double nearest to the literal's mathematical value (ECMAScript lets an engine round a
  literal of more than 20 significant digits less exactly; the page numbers of this
  program are far shorter).
\<close>

definition str_unsigned_decimal :: "string \<Rightarrow> jsnum option" where
  "str_unsigned_decimal s =
     (if s = ''Infinity'' then Some PInf
      else let ip = takeWhile is_digit s;
               r1 = dropWhile is_digit s;
               (fp, r2) = (case r1 of
                             [] \<Rightarrow> ([], [])
                           | c # r \<Rightarrow> if c = CHR ''.''
                                      then (takeWhile is_digit r, dropWhile is_digit r)
                                      else ([], r1))
           in if ip = [] \<and> fp = [] then None
              else case exponent_part r2 of
                     None \<Rightarrow> None
                   | Some ex \<Rightarrow>
                       Some (dbl_round (of_nat (digits_val 10 (ip @ fp))
                                        * 10 powi (ex - int (length fp)))))"

text \<open>NonDecimalIntegerLiteral: \<open>0x\<close>, \<open>0o\<close> or \<open>0b\<close> (either case), then at least one
  digit of that base; no sign.\<close>

definition non_decimal :: "string \<Rightarrow> jsnum option" where
  "non_decimal s =
     (case s of
        z # x # ds \<Rightarrow>
          (let b = (if x = CHR ''x'' \<or> x = CHR ''X'' then 16
                    else if x = CHR ''o'' \<or> x = CHR ''O'' then 8
                    else if x = CHR ''b'' \<or> x = CHR ''B'' then 2 else 0 :: nat)
           in if z = CHR ''0'' \<and> b \<noteq> 0 \<and> ds \<noteq> [] \<and> list_all (is_digit_in b) ds
              then Some (dbl_round (of_nat (digits_val b ds))) else None)
      | _ \<Rightarrow> None)"

definition str_numeric_literal :: "string \<Rightarrow> jsnum option" where
  "str_numeric_literal s =
     (case non_decimal s of
        Some v \<Rightarrow> Some v
      | None \<Rightarrow>
          (case s of
             [] \<Rightarrow> None
           | c # r \<Rightarrow> if c = CHR ''+'' then str_unsigned_decimal r
                      else if c = CHR ''-'' then map_option js_neg (str_unsigned_decimal r)
                      else str_unsigned_decimal s))"

text \<open>\<open>Number(s)\<close>: white space is stripped, the empty string is 0, anything outside the
  numeric-string grammar is NaN.\<close>

definition Number :: "string \<Rightarrow> jsnum" where
  "Number s =
     (let t = trim s
      in if t = [] then Fin 0
         else case str_numeric_literal t of None \<Rightarrow> NaN | Some v \<Rightarrow> v)"

section \<open>The page-selection parser\<close>

text \<open>
  \<open>maxPage\<close> (\<open>max\<close> in the source) is the page count of the loaded document
  (\<open>totalPages\<close>), a non-negative integer. Page counts are safe integers: up to
  \<open>2^53 - 1\<close> each is a double of its own, and a template literal prints it in decimal.
\<close>

definition MAX_SAFE_INTEGER :: nat where
  "MAX_SAFE_INTEGER = 2 ^ 53 - 1"

text \<open>\<open>pages.add(x)\<close> on a set of numbers, kept in insertion order.\<close>

definition set_add :: "jsnum list \<Rightarrow> jsnum \<Rightarrow> jsnum list" where
  "set_add pages x = (if x \<in> set pages then pages else pages @ [x])"

definition range_error :: "string \<Rightarrow> nat \<Rightarrow> string" where
  "range_error part maxPage =
     ''Invalid range: '' @ [CHR 0x22] @ part @ [CHR 0x22]
       @ ''. Pages must be between 1 and '' @ dec maxPage @ ''.''"

definition page_error :: "string \<Rightarrow> nat \<Rightarrow> string" where
  "page_error part maxPage =
     ''Invalid page: '' @ [CHR 0x22] @ part @ [CHR 0x22]
       @ ''. Pages must be between 1 and '' @ dec maxPage @ ''.''"

text \<open>
  \<open>for (let i = start; i <= end; i++) pages.add(i - 1)\<close>. The loop need not end: from
  \<open>2^53\<close> on, \<open>i + 1\<close> can round back to \<open>i\<close>. \<open>None\<close> is a loop that never returns.
\<close>

partial_function (option) range_loop :: "jsnum \<Rightarrow> jsnum \<Rightarrow> jsnum list \<Rightarrow> jsnum list option"
where
  "range_loop i endv pages =
     (if js_le i endv
      then range_loop (js_add i (Fin 1)) endv (set_add pages (js_sub i (Fin 1)))
      else Some pages)"

declare range_loop.simps [code]

text \<open>
  The body of \<open>for (const part of parts)\<close>: \<open>Inl\<close> is the message of the thrown Error,
  \<open>Inr\<close> the updated set. A missing element of the destructured array is
  \<open>undefined\<close>, for which \<open>isNaN\<close> holds.
\<close>

definition for_body :: "nat \<Rightarrow> string \<Rightarrow> jsnum list \<Rightarrow> (string + jsnum list) option" where
  "for_body maxPage part pages =
     (if CHR ''-'' \<in> set part then
        (case map Number (split CHR ''-'' part) of
           start # endv # _ \<Rightarrow>
             if isNaN start \<or> isNaN endv \<or> js_gt start endv \<or> js_lt start (Fin 1)
                \<or> js_gt endv (Fin (of_nat maxPage))
             then Some (Inl (range_error part maxPage))
             else map_option Inr (range_loop start endv pages)
         | _ \<Rightarrow> Some (Inl (range_error part maxPage)))
      else
        (let page = Number part
         in if isNaN page \<or> js_lt page (Fin 1) \<or> js_gt page (Fin (of_nat maxPage))
            then Some (Inl (page_error part maxPage))
            else Some (Inr (set_add pages (js_sub page (Fin 1))))))"

fun for_parts :: "nat \<Rightarrow> string list \<Rightarrow> jsnum list \<Rightarrow> (string + jsnum list) option" where
  "for_parts maxPage [] pages = Some (Inr pages)"
| "for_parts maxPage (part # parts) pages =
     (case for_body maxPage part pages of
        None \<Rightarrow> None
      | Some (Inl e) \<Rightarrow> Some (Inl e)
      | Some (Inr pages') \<Rightarrow> for_parts maxPage parts pages')"

text \<open>\<open>Array.prototype.sort\<close> with the comparator \<open>(a, b) => a - b\<close>, as an insertion
  sort: \<open>a\<close> goes behind \<open>b\<close> when \<open>a - b\<close> is positive.\<close>

fun insert_cmp :: "jsnum \<Rightarrow> jsnum list \<Rightarrow> jsnum list" where
  "insert_cmp x [] = [x]"
| "insert_cmp x (y # ys) =
     (if js_gt (js_sub x y) (Fin 0) then y # insert_cmp x ys else x # y # ys)"

definition sort_cmp :: "jsnum list \<Rightarrow> jsnum list" where
  "sort_cmp xs = foldr insert_cmp xs []"

definition parsePageString :: "string \<Rightarrow> nat \<Rightarrow> (string + jsnum list) option" where
  "parsePageString input maxPage =
     (let parts = map trim (split CHR '','' input)
      in case for_parts maxPage parts [] of
           None \<Rightarrow> None
         | Some (Inl e) \<Rightarrow> Some (Inl e)
         | Some (Inr pages) \<Rightarrow>
             if pages = [] \<and> input \<noteq> [] then Some (Inl ''Please enter valid page numbers.'')
             else if pages = []
             then Some (Inl ''No pages selected. Please enter page numbers to extract.'')
             else Some (Inr (sort_cmp pages)))"

section \<open>The handlers of the App component\<close>

text \<open>
  The component state set through the \<open>useState\<close> setters (\<open>pdfFile\<close> is the
  source's \<open>file\<close>). The uploaded file, byte buffers and object URLs are opaque.
\<close>

record ('file, 'bytes, 'url) app_state =
  pdfFile :: "'file option"
  totalPages :: nat
  pageInput :: string
  isProcessing :: bool
  error :: "string option"
  outputPdfUrl :: "'url option"
  outputPdfBytes :: "'bytes option"
  librariesReady :: bool

text \<open>
  What a \<open>catch (e: any)\<close> block reads of the value it caught:
  \<open>e.constructor.name\<close>, and \<open>e.message\<close> (\<open>None\<close> when there is none).
\<close>

datatype thrown = Thrown (ctor_name: string) (message: "string option")

text \<open>
  The calls into the file object, pdf-lib and the URL API, each returning its value or
  the value it throws: \<open>file.arrayBuffer()\<close>, \<open>PDFDocument.load\<close>, \<open>getPageCount\<close>,
  \<open>copyPages\<close> into a new document, \<open>save\<close> of the new document with the copied pages
  added, and \<open>URL.createObjectURL\<close> of the blob.
\<close>

record ('file, 'bytes, 'doc, 'page, 'url) collaborators =
  arrayBuffer :: "'file \<Rightarrow> thrown + 'bytes"
  load :: "'bytes \<Rightarrow> thrown + 'doc"
  getPageCount :: "'doc \<Rightarrow> nat"
  copyPages :: "'doc \<Rightarrow> jsnum list \<Rightarrow> thrown + 'page list"
  save :: "'page list \<Rightarrow> thrown + 'bytes"
  createObjectURL :: "'bytes \<Rightarrow> 'url"

definition resetState :: "('file, 'bytes, 'url) app_state \<Rightarrow> ('file, 'bytes, 'url) app_state" where
  "resetState st =
     st\<lparr>pdfFile := None, totalPages := 0, pageInput := [], isProcessing := False,
        error := None, outputPdfUrl := None, outputPdfBytes := None\<rparr>"

definition corrupt_message :: string where
  "corrupt_message =
     ''Could not read the PDF file. Please ensure it is a valid, uncorrupted file.''"

definition password_message :: string where
  "password_message =
     ''This PDF is password-protected. This application cannot process encrypted or password-protected files.''"

text \<open>The \<open>catch\<close> block of \<open>handleFileSelect\<close>: the message shown for a failed load.\<close>

definition userFriendlyError :: "thrown \<Rightarrow> string" where
  "userFriendlyError e =
     (if ctor_name e = ''PDFInvalidPasswordError''
         \<or> (case message e of
               None \<Rightarrow> False
             | Some m \<Rightarrow> m \<noteq> [] \<and> str_includes (toLowerCase m) ''encrypted'')
      then password_message else corrupt_message)"

definition handleFileSelect ::
  "('file, 'bytes, 'doc, 'page, 'url) collaborators \<Rightarrow> ('file, 'bytes, 'url) app_state
     \<Rightarrow> 'file \<Rightarrow> ('file, 'bytes, 'url) app_state" where
  "handleFileSelect c st selectedFile =
     (if isProcessing st then st
      else if \<not> librariesReady st
      then st\<lparr>error := Some ''PDF libraries are not ready. Please wait a moment and try again.''\<rparr>
      else
        (let st1 = (resetState st)\<lparr>pdfFile := Some selectedFile, isProcessing := True,
                                    error := None\<rparr>
         in case (case arrayBuffer c selectedFile of
                    Inl e \<Rightarrow> Inl e
                  | Inr buf \<Rightarrow> load c buf) of
              Inr pdfDoc \<Rightarrow> st1\<lparr>totalPages := getPageCount c pdfDoc, isProcessing := False\<rparr>
            | Inl e \<Rightarrow> st1\<lparr>error := Some (userFriendlyError e), pdfFile := None,
                            isProcessing := False\<rparr>))"

definition unexpected_message :: string where
  "unexpected_message = ''An unexpected error occurred during PDF processing.''"

text \<open>\<open>e.message || '...'\<close>: a missing or empty message is falsy.\<close>

definition catch_message :: "thrown \<Rightarrow> string" where
  "catch_message e =
     (case message e of
        None \<Rightarrow> unexpected_message
      | Some m \<Rightarrow> if m \<noteq> [] then m else unexpected_message)"

text \<open>
  The \<open>try\<close> block of \<open>handleExtract\<close>: the parser's Error or a collaborator's thrown
  value on the left, the saved bytes and their object URL on the right; \<open>None\<close> when the
  parser never returns.
\<close>

definition try_extract ::
  "('file, 'bytes, 'doc, 'page, 'url) collaborators \<Rightarrow> 'file \<Rightarrow> string \<Rightarrow> nat
     \<Rightarrow> (thrown + 'bytes \<times> 'url) option" where
  "try_extract c f input n =
     (case parsePageString input n of
        None \<Rightarrow> None
      | Some (Inl msg) \<Rightarrow> Some (Inl (Thrown ''Error'' (Some msg)))
      | Some (Inr pageIndices) \<Rightarrow>
          Some (case arrayBuffer c f of
                  Inl e \<Rightarrow> Inl e
                | Inr existingPdfBytes \<Rightarrow>
                    (case load c existingPdfBytes of
                       Inl e \<Rightarrow> Inl e
                     | Inr pdfDoc \<Rightarrow>
                         (case copyPages c pdfDoc pageIndices of
                            Inl e \<Rightarrow> Inl e
                          | Inr copiedPages \<Rightarrow>
                              (case save c copiedPages of
                                 Inl e \<Rightarrow> Inl e
                               | Inr pdfBytes \<Rightarrow>
                                   Inr (pdfBytes, createObjectURL c pdfBytes))))))"

definition handleExtract ::
  "('file, 'bytes, 'doc, 'page, 'url) collaborators \<Rightarrow> ('file, 'bytes, 'url) app_state
     \<Rightarrow> ('file, 'bytes, 'url) app_state option" where
  "handleExtract c st =
     (case pdfFile st of
        None \<Rightarrow> Some st
      | Some f \<Rightarrow>
          if isProcessing st then Some st
          else
            (case try_extract c f (pageInput st) (totalPages st) of
               None \<Rightarrow> None
             | Some (Inr (pdfBytes, url)) \<Rightarrow>
                 Some (st\<lparr>isProcessing := False, error := None,
                          outputPdfUrl := Some url, outputPdfBytes := Some pdfBytes\<rparr>)
             | Some (Inl e) \<Rightarrow>
                 Some (st\<lparr>isProcessing := False, error := Some (catch_message e),
                          outputPdfUrl := None, outputPdfBytes := None\<rparr>)))"

section \<open>Notions used to state the properties\<close>

text \<open>The indices one token contributes: what the loop body adds to the empty set.\<close>

definition token_pages :: "nat \<Rightarrow> string \<Rightarrow> jsnum set" where
  "token_pages maxPage part =
     (case for_body maxPage part [] of Some (Inr ps) \<Rightarrow> set ps | _ \<Rightarrow> {})"

text \<open>The message the loop body throws on a token: the range message when the token
  has a hyphen, the page message otherwise.\<close>

definition token_error :: "nat \<Rightarrow> string \<Rightarrow> string" where
  "token_error maxPage part =
     (if CHR ''-'' \<in> set part then range_error part maxPage else page_error part maxPage)"

text \<open>
  The specification's words for an invalid token. A token with a hyphen is invalid if
  either part fails to parse as a number, \<open>start > end\<close>, \<open>start < 1\<close> or
  \<open>end > maxPage\<close>; any other token is invalid if it fails to parse, or is below 1, or
  above \<open>maxPage\<close>.
\<close>

definition spec_token_invalid :: "nat \<Rightarrow> string \<Rightarrow> bool" where
  "spec_token_invalid maxPage token =
     (if CHR ''-'' \<in> set token
      then (case split CHR ''-'' token of
              s # e # _ \<Rightarrow>
                isNaN (Number s) \<or> isNaN (Number e) \<or> js_gt (Number s) (Number e)
                \<or> js_lt (Number s) (Fin 1) \<or> js_gt (Number e) (Fin (of_nat maxPage))
            | _ \<Rightarrow> True)
      else isNaN (Number token) \<or> js_lt (Number token) (Fin 1)
           \<or> js_gt (Number token) (Fin (of_nat maxPage)))"

text \<open>
  The specification's words for the message of an invalid token:
  \<open>Invalid range: <token>. Pages must be between 1 and <maxPage>.\<close> for a token with a
  hyphen and \<open>Invalid page: <token>. Pages must be between 1 and <maxPage>.\<close> for any
  other token.
\<close>

definition spec_token_message :: "nat \<Rightarrow> string \<Rightarrow> string" where
  "spec_token_message maxPage token =
     (if CHR ''-'' \<in> set token
      then ''Invalid range: '' @ token @ ''. Pages must be between 1 and '' @ dec maxPage @ ''.''
      else ''Invalid page: '' @ token @ ''. Pages must be between 1 and '' @ dec maxPage @ ''.'')"

text \<open>The same two messages with the token between double quotes.\<close>

definition quoted_token_message :: "nat \<Rightarrow> string \<Rightarrow> string" where
  "quoted_token_message maxPage token =
     (if CHR ''-'' \<in> set token
      then ''Invalid range: '' @ [CHR 0x22] @ token @ [CHR 0x22]
             @ ''. Pages must be between 1 and '' @ dec maxPage @ ''.''
      else ''Invalid page: '' @ [CHR 0x22] @ token @ [CHR 0x22]
             @ ''. Pages must be between 1 and '' @ dec maxPage @ ''.'')"

text \<open>
  The characters a numeric string can contain: white space, the decimal digits, the
  signs and the point (codes 43, 45, 46), the letters \<open>A\<close> to \<open>F\<close> and \<open>a\<close> to \<open>f\<close>
  (hexadecimal digits, the exponent marker, the binary prefix), \<open>x X o O\<close> of the other
  prefixes (120, 88, 111, 79) and \<open>I n i t y\<close> of \<open>Infinity\<close> (73, 110, 105, 116, 121).
  A string with any other character does not parse as a number.
\<close>

definition numeric_char :: "char \<Rightarrow> bool" where
  "numeric_char c =
     (let n = of_char c :: nat
      in is_digit c \<or> is_ws c \<or> n \<in> {43, 45, 46} \<or> (65 \<le> n \<and> n \<le> 70) \<or> (97 \<le> n \<and> n \<le> 102)
         \<or> n \<in> {120, 88, 111, 79} \<or> n \<in> {73, 110, 105, 116, 121})"

text \<open>
  The message \<open>handleExtract\<close> shows for a caught value, in the words of the amended
  statement: the value's own message when it has a non-empty one, the generic text
  otherwise.
\<close>

definition spec_shown_message :: "thrown \<Rightarrow> string" where
  "spec_shown_message e =
     (case message e of
        None \<Rightarrow> ''An unexpected error occurred during PDF processing.''
      | Some m \<Rightarrow>
          if m = [] then ''An unexpected error occurred during PDF processing.'' else m)"

section \<open>Example collaborators and states\<close>

text \<open>
  A selected three-page document with the page input \<open>1-2\<close>, and sets of
  collaborators on opaque values: one whose \<open>load\<close> throws an Error with a message of its
  own, one whose \<open>load\<close> throws pdf-lib's error for an encrypted document, one whose
  \<open>arrayBuffer\<close> throws a value without a message, one whose \<open>save\<close> throws an Error
  with an empty message, and one where every call succeeds.
\<close>

definition ready_state :: "(unit, unit, unit) app_state" where
  "ready_state =
     \<lparr>pdfFile = Some (), totalPages = 3, pageInput = ''1-2'', isProcessing = False,
      error = None, outputPdfUrl = None, outputPdfBytes = None, librariesReady = True\<rparr>"

definition broken_load :: "(unit, unit, unit, unit, unit) collaborators" where
  "broken_load =
     \<lparr>arrayBuffer = Inr,
      load = (\<lambda>_. Inl (Thrown ''Error'' (Some ''Failed to parse PDF document''))),
      getPageCount = (\<lambda>_. 0),
      copyPages = (\<lambda>_ _. Inr []),
      save = (\<lambda>_. Inr ()),
      createObjectURL = (\<lambda>_. ())\<rparr>"

definition encrypted_load :: "(unit, unit, unit, unit, unit) collaborators" where
  "encrypted_load =
     \<lparr>arrayBuffer = Inr,
      load = (\<lambda>_. Inl (Thrown ''EncryptedPDFError'' (Some ''Input document is Encrypted''))),
      getPageCount = (\<lambda>_. 0),
      copyPages = (\<lambda>_ _. Inr []),
      save = (\<lambda>_. Inr ()),
      createObjectURL = (\<lambda>_. ())\<rparr>"

definition silent_buffer :: "(unit, unit, unit, unit, unit) collaborators" where
  "silent_buffer =
     \<lparr>arrayBuffer = (\<lambda>_. Inl (Thrown ''Object'' None)),
      load = Inr,
      getPageCount = (\<lambda>_. 3),
      copyPages = (\<lambda>_ _. Inr []),
      save = (\<lambda>_. Inr ()),
      createObjectURL = (\<lambda>_. ())\<rparr>"

definition broken_save :: "(unit, unit, unit, unit, unit) collaborators" where
  "broken_save =
     \<lparr>arrayBuffer = Inr,
      load = Inr,
      getPageCount = (\<lambda>_. 3),
      copyPages = (\<lambda>_ _. Inr []),
      save = (\<lambda>_. Inl (Thrown ''Error'' (Some []))),
      createObjectURL = (\<lambda>_. ())\<rparr>"

definition working :: "(unit, unit, unit, unit, unit) collaborators" where
  "working =
     \<lparr>arrayBuffer = Inr,
      load = Inr,
      getPageCount = (\<lambda>_. 3),
      copyPages = (\<lambda>_ _. Inr []),
      save = (\<lambda>_. Inr ()),
      createObjectURL = (\<lambda>_. ())\<rparr>"

section \<open>Values that rounding produces\<close>

text \<open>
  Every finite double is a multiple of \<open>2^-1074\<close>, the spacing of the smallest doubles.
  \<open>rounded\<close> holds of the infinities and of the finite values on that grid: the values
  \<open>dbl_round\<close> returns.
\<close>

definition on_grid :: "rat \<Rightarrow> bool" where
  "on_grid r = (r * 2 ^ 1074 \<in> \<int>)"

fun rounded :: "jsnum \<Rightarrow> bool" where
  "rounded NaN = False"
| "rounded (Fin r) = on_grid r"
| "rounded _ = True"

text \<open>A finite double with an integer value.\<close>

fun is_int :: "jsnum \<Rightarrow> bool" where
  "is_int (Fin r) = (of_int \<lfloor>r\<rfloor> = r)"
| "is_int _ = False"

text \<open>The number a token starts with: the page of a single-page token, the start of a
  range.\<close>

definition token_start :: "string \<Rightarrow> jsnum" where
  "token_start part = Number (hd (split CHR ''-'' part))"

section \<open>The input as the parser reads it\<close>

text \<open>
  The comma-separated tokens of an input, each as the list of its hyphen-separated parts
  with the surrounding white space removed. Inserting white space at the ends of the
  input, around a comma or around a hyphen leaves this reading unchanged.
\<close>

definition pieces :: "string \<Rightarrow> string list list" where
  "pieces input = map (\<lambda>t. map trim (split CHR ''-'' t)) (split CHR '','' input)"

text \<open>The outcome of a call without the text of the message: the returned sequence, a
  failure, or no return.\<close>

definition outcome :: "(string + jsnum list) option \<Rightarrow> (unit + jsnum list) option" where
  "outcome r = map_option (map_sum (\<lambda>_. ()) id) r"

section \<open>Facts about doubles\<close>

lemma bitlen_bounds: "0 < n \<Longrightarrow> 2 ^ (bitlen n - 1) \<le> n \<and> n < 2 ^ bitlen n"
proof (induction n rule: bitlen.induct)
  case (1 n)
  show ?case
  proof (cases "n div 2 = 0")
    case True
    with 1 have "n = 1" by presburger
    then show ?thesis by (simp add: bitlen.simps[of "Suc 0"] bitlen.simps[of 0])
  next
    case False
    then have pos: "0 < n div 2" by simp
    from 1 pos have IH: "2 ^ (bitlen (n div 2) - 1) \<le> n div 2 \<and> n div 2 < 2 ^ bitlen (n div 2)"
      by simp
    have bl: "bitlen n = Suc (bitlen (n div 2))" using 1 by (simp add: bitlen.simps[of n])
    have blpos: "0 < bitlen (n div 2)" using pos by (simp add: bitlen.simps[of "n div 2"])
    then obtain j where j: "bitlen (n div 2) = Suc j" by (cases "bitlen (n div 2)") auto
    from IH j have "2 ^ j \<le> n div 2" "n div 2 < 2 ^ Suc j" by simp_all
    then have "2 * 2 ^ j \<le> n" "n < 2 * 2 ^ Suc j" by presburger+
    then show ?thesis using bl j by simp
  qed
qed

lemma flog2_le:
  assumes "0 < a"
  shows "2 powi (flog2 a) \<le> a"
proof -
  obtain p d where pd: "quotient_of a = (p, d)" by (cases "quotient_of a")
  then have d: "0 < d" and a: "a = of_int p / of_int d"
    by (simp_all add: quotient_of_denom_pos quotient_of_div)
  from assms a d have p: "0 < p" by (simp add: zero_less_divide_iff)
  define k where "k = int (bitlen (nat p)) - int (bitlen (nat d))"
  have fl: "flog2 a = (if 2 powi k \<le> a then k else k - 1)"
    by (simp add: flog2_def pd k_def)
  show ?thesis
  proof (cases "2 powi k \<le> a")
    case True
    then show ?thesis by (simp add: fl)
  next
    case False
    from bitlen_bounds[of "nat p"] p have bp: "2 ^ (bitlen (nat p) - 1) \<le> nat p" by simp
    from bitlen_bounds[of "nat d"] d have bd: "nat d < 2 ^ bitlen (nat d)" by simp
    have blp: "0 < bitlen (nat p)" using p by (simp add: bitlen.simps[of "nat p"])
    have "(2::rat) ^ (bitlen (nat p) - 1) \<le> of_nat (nat p)"
      using bp by (metis of_nat_le_iff of_nat_numeral of_nat_power)
    then have 1: "(2::rat) ^ (bitlen (nat p) - 1) \<le> of_int p" using p by simp
    have "of_nat (nat d) < (2::rat) ^ bitlen (nat d)"
      using bd by (metis of_nat_less_iff of_nat_numeral of_nat_power)
    then have 2: "of_int d < (2::rat) ^ bitlen (nat d)" using d by simp
    have dpos: "(0::rat) < of_int d" using d by simp
    obtain j where j: "bitlen (nat p) = Suc j" using blp by (cases "bitlen (nat p)") auto
    have "2 powi (k - 1) = (2::rat) ^ (bitlen (nat p) - 1) / 2 ^ bitlen (nat d)"
      by (simp add: k_def j power_int_diff)
    also have "\<dots> \<le> of_int p / 2 ^ bitlen (nat d)"
      using 1 by (simp add: divide_right_mono)
    also have "\<dots> \<le> of_int p / of_int d"
      using 2 dpos p by (simp add: frac_le)
    finally have "2 powi (k - 1) \<le> a" unfolding a .
    with False show ?thesis by (simp add: fl)
  qed
qed

lemma flog2_upper:
  assumes "0 < a"
  shows "a < 2 powi (flog2 a + 1)"
proof -
  obtain p d where pd: "quotient_of a = (p, d)" by (cases "quotient_of a")
  then have d: "0 < d" and a: "a = of_int p / of_int d"
    by (simp_all add: quotient_of_denom_pos quotient_of_div)
  from assms a d have p: "0 < p" by (simp add: zero_less_divide_iff)
  define k where "k = int (bitlen (nat p)) - int (bitlen (nat d))"
  have fl: "flog2 a = (if 2 powi k \<le> a then k else k - 1)"
    by (simp add: flog2_def pd k_def)
  show ?thesis
  proof (cases "2 powi k \<le> a")
    case False
    then show ?thesis by (simp add: fl)
  next
    case True
    from bitlen_bounds[of "nat p"] p have bp: "nat p < 2 ^ bitlen (nat p)" by simp
    from bitlen_bounds[of "nat d"] d have bd: "2 ^ (bitlen (nat d) - 1) \<le> nat d" by simp
    have bld: "0 < bitlen (nat d)" using d by (simp add: bitlen.simps[of "nat d"])
    then obtain j where j: "bitlen (nat d) = Suc j" by (cases "bitlen (nat d)") auto
    have "of_nat (nat p) < (2::rat) ^ bitlen (nat p)"
      using bp by (metis of_nat_less_iff of_nat_numeral of_nat_power)
    then have 1: "of_int p < (2::rat) ^ bitlen (nat p)" using p by simp
    have "(2::rat) ^ j \<le> of_nat (nat d)"
      using bd j by (metis diff_Suc_1 of_nat_le_iff of_nat_numeral of_nat_power)
    then have 2: "(2::rat) ^ j \<le> of_int d" using d by simp
    have "of_int p / of_int d < (2::rat) ^ bitlen (nat p) / of_int d"
      using 1 d by (simp add: divide_strict_right_mono)
    also have "\<dots> \<le> 2 ^ bitlen (nat p) / 2 ^ j"
      using 2 d by (intro divide_left_mono mult_pos_pos) simp_all
    also have "\<dots> = 2 powi (k + 1)" by (simp add: k_def j power_int_diff)
    finally have "a < 2 powi (k + 1)" unfolding a .
    with True show ?thesis by (simp add: fl)
  qed
qed

lemma round_half_even_of_int: "round_half_even (of_int n) = n"
  by (simp add: round_half_even_def)

lemma flog2_less:
  assumes "0 < a" and "a < 2 powi n"
  shows "flog2 a < n"
proof (rule ccontr)
  assume "\<not> flog2 a < n"
  then have "n \<le> flog2 a" by simp
  then have "(2::rat) powi n \<le> 2 powi (flog2 a)" by (simp add: power_int_increasing)
  with flog2_le[OF assms(1)] assms(2) show False by simp
qed

lemma dbl_round_exact:
  assumes q: "q = of_int m * 2 powi k" and m: "\<bar>m\<bar> < 2 ^ 53" and k: "- 1074 \<le> k"
    and fin: "\<bar>q\<bar> < 2 ^ 1024"
  shows "dbl_round q = Fin q"
proof (cases "q = 0")
  case True
  then show ?thesis by (simp add: dbl_round_def)
next
  case False
  define a where "a = \<bar>q\<bar>"
  define e where "e = max (flog2 a) (- 1022)"
  define u where "u = (2::rat) powi (e - 52)"
  have apos: "0 < a" using False by (simp add: a_def)
  have a_eq: "a = of_int \<bar>m\<bar> * 2 powi k" by (simp add: a_def q abs_mult)
  have "of_int \<bar>m\<bar> < (2::rat) ^ 53" using m by (metis of_int_less_iff of_int_numeral of_int_power)
  then have "a < 2 ^ 53 * 2 powi k" by (simp add: a_eq)
  then have "a < 2 powi (53 + k)" by (simp add: power_int_add)
  then have "flog2 a < 53 + k" using apos by (rule flog2_less[rotated])
  then have ek: "e - 52 \<le> k" using k by (simp add: e_def)
  have "a / u = of_int \<bar>m\<bar> * 2 powi (k - (e - 52))"
    by (simp add: a_eq u_def power_int_diff)
  also have "\<dots> = of_int \<bar>m\<bar> * 2 ^ nat (k - (e - 52))"
    using ek by (simp add: power_int_def)
  also have "\<dots> = of_int (\<bar>m\<bar> * 2 ^ nat (k - (e - 52)))" by simp
  finally have "of_int (round_half_even (a / u)) * u = a / u * u"
    by (simp only: round_half_even_of_int)
  then have r: "of_int (round_half_even (a / u)) * u = a" by (simp add: u_def)
  have "dbl_round q = (if 2 ^ 1024 \<le> a then (if q < 0 then NInf else PInf)
                        else Fin (if q < 0 then - a else a))"
    using False r unfolding dbl_round_def Let_def a_def[symmetric] e_def[symmetric] u_def[symmetric]
    by simp
  also have "\<dots> = Fin q" using fin by (auto simp: a_def)
  finally show ?thesis .
qed

lemma dbl_round_int:
  assumes "q \<in> \<int>" and "\<bar>q\<bar> \<le> 2 ^ 53"
  shows "dbl_round q = Fin q"
proof -
  from assms(1) obtain m where m: "q = of_int m" by (auto elim: Ints_cases)
  have le: "\<bar>m\<bar> \<le> 2 ^ 53" using assms(2) unfolding m
    by (metis of_int_abs of_int_le_iff of_int_numeral of_int_power)
  have "(2::rat) ^ 53 < 2 ^ 1024" by simp
  with assms(2) have fin: "\<bar>q\<bar> < 2 ^ 1024" by linarith
  show ?thesis
  proof (cases "\<bar>m\<bar> < 2 ^ 53")
    case True
    show ?thesis by (rule dbl_round_exact[of q m 0]) (use True fin in \<open>simp_all add: m\<close>)
  next
    case False
    with le have "\<bar>m\<bar> = 2 ^ 53" by simp
    then have "m = 2 ^ 53 \<or> m = - (2 ^ 53)" by linarith
    then have "q = of_int (m div 2) * 2 powi 1" by (auto simp: m)
    moreover have "\<bar>m div 2\<bar> < 2 ^ 53" using \<open>m = 2 ^ 53 \<or> m = - (2 ^ 53)\<close> by auto
    ultimately show ?thesis using fin by (intro dbl_round_exact[of q "m div 2" 1]) simp_all
  qed
qed

section \<open>Evaluating the parser\<close>

lemmas number_eval = Number_def trim_def is_ws_def str_numeric_literal_def non_decimal_def
  str_unsigned_decimal_def exponent_part_def is_digit_def digit_val_def digits_val_def
  is_digit_in_def dbl_round_int

lemmas parse_eval = parsePageString_def for_body_def isNaN_def js_gt_def js_le_def js_sub_def
  set_add_def sort_cmp_def range_loop.simps dbl_round_int

section \<open>Splitting at a separator\<close>

lemma split_not_Nil [simp]: "split c s \<noteq> []"
  by (induction s) auto

lemma split_notin: "c \<notin> set p \<Longrightarrow> split c p = [p]"
  by (induction p) auto

lemma split_append_sep: "c \<notin> set p \<Longrightarrow> split c (p @ c # r) = p # split c r"
  by (induction p) auto

lemma length_split_ge2: "c \<in> set s \<Longrightarrow> \<exists>p q ps. split c s = p # q # ps"
proof (induction s)
  case Nil
  then show ?case by simp
next
  case (Cons x xs)
  show ?case
  proof (cases "x = c")
    case True
    obtain q ps where "split c xs = q # ps" using split_not_Nil[of c xs] by (cases "split c xs") auto
    with True show ?thesis by simp
  next
    case False
    with Cons obtain p q ps where "split c xs = p # q # ps" by auto
    with False show ?thesis by simp
  qed
qed

section \<open>Rounding: nearness, sign and order\<close>

lemma round_half_even_near: "\<bar>of_int (round_half_even x) - x\<bar> \<le> 1 / 2"
proof -
  have "of_int \<lfloor>x\<rfloor> \<le> x" "x < of_int \<lfloor>x\<rfloor> + 1" by linarith+
  then show ?thesis by (auto simp: round_half_even_def Let_def)
qed

lemma round_half_even_nonneg: "0 \<le> x \<Longrightarrow> 0 \<le> round_half_even x"
  by (auto simp: round_half_even_def Let_def)

lemma round_half_even_ge1: "1 \<le> x \<Longrightarrow> 1 \<le> round_half_even x"
proof -
  assume "1 \<le> x"
  then have "1 \<le> \<lfloor>x\<rfloor>" by simp
  then show ?thesis by (auto simp: round_half_even_def Let_def)
qed

text \<open>The shape of every result of rounding a non-zero value.\<close>

lemma dbl_round_shape:
  assumes "q \<noteq> 0"
  obtains k n where "k = max (flog2 \<bar>q\<bar>) (- 1022) - 52"
    and "n = round_half_even (\<bar>q\<bar> / 2 powi k)"
    and "dbl_round q = (if (2::rat) ^ 1024 \<le> of_int n * 2 powi k
                         then (if q < 0 then NInf else PInf)
                         else Fin (if q < 0 then - (of_int n * 2 powi k)
                                   else of_int n * 2 powi k))"
proof -
  define k where "k = max (flog2 \<bar>q\<bar>) (- 1022) - 52"
  define n where "n = round_half_even (\<bar>q\<bar> / 2 powi k)"
  have "dbl_round q = (if (2::rat) ^ 1024 \<le> of_int n * 2 powi k
                         then (if q < 0 then NInf else PInf)
                         else Fin (if q < 0 then - (of_int n * 2 powi k)
                                   else of_int n * 2 powi k))"
    using assms unfolding dbl_round_def Let_def n_def k_def by simp
  with k_def n_def show ?thesis by (rule that)
qed

lemma on_grid_mult:
  assumes "- 1074 \<le> k"
  shows "on_grid (of_int n * 2 powi k)"
proof -
  have "of_int n * 2 powi k * (2::rat) ^ 1074 = of_int n * 2 powi (k + 1074)"
    by (simp add: power_int_add)
  also have "\<dots> = of_int n * 2 ^ nat (k + 1074)" using assms by (simp add: power_int_def)
  also have "\<dots> = of_int (n * 2 ^ nat (k + 1074))" by simp
  finally show ?thesis unfolding on_grid_def by (metis Ints_of_int)
qed

lemma on_grid_minus: "on_grid r \<Longrightarrow> on_grid (- r)"
  by (simp add: on_grid_def)

lemma on_grid_diff: "on_grid a \<Longrightarrow> on_grid b \<Longrightarrow> on_grid (a - b)"
  by (simp add: on_grid_def left_diff_distrib)

lemma dbl_round_rounded: "rounded (dbl_round q)"
proof (cases "q = 0")
  case True
  then show ?thesis by (simp add: dbl_round_def on_grid_def)
next
  case False
  then obtain k n where k: "k = max (flog2 \<bar>q\<bar>) (- 1022) - 52"
    and r: "dbl_round q = (if (2::rat) ^ 1024 \<le> of_int n * 2 powi k
                         then (if q < 0 then NInf else PInf)
                         else Fin (if q < 0 then - (of_int n * 2 powi k)
                                   else of_int n * 2 powi k))"
    by (rule dbl_round_shape)
  from k have "- 1074 \<le> k" by simp
  then have "on_grid (of_int n * 2 powi k)" by (rule on_grid_mult)
  then show ?thesis unfolding r by (simp add: on_grid_minus)
qed

lemma scaled_int_ge1:
  fixes q G :: rat
  assumes "q * G \<in> \<int>" and "q \<noteq> 0" and "0 < G"
  shows "1 \<le> \<bar>q\<bar> * G"
proof -
  from assms(1) obtain m where m: "q * G = of_int m" by (auto elim: Ints_cases)
  have "\<bar>q\<bar> * G = \<bar>q * G\<bar>" using assms(3) by (simp add: abs_mult)
  also have "\<dots> = of_int \<bar>m\<bar>" unfolding m by simp
  finally have am: "\<bar>q\<bar> * G = of_int \<bar>m\<bar>" .
  have "m \<noteq> 0" using m assms(2,3) by auto
  then have "1 \<le> \<bar>m\<bar>" by simp
  then have "(1::rat) \<le> of_int \<bar>m\<bar>" by (simp only: of_int_1_le_iff)
  then show ?thesis unfolding am .
qed

lemma grid_quotient_ge1:
  assumes "on_grid q" and "q \<noteq> 0"
  shows "1 \<le> \<bar>q\<bar> / 2 powi (- 1074)"
proof -
  have "(2::rat) powi (- 1074) = inverse (2 ^ 1074)"
    by (simp only: power_int_minus power_int_numeral)
  then have eq: "\<bar>q\<bar> / 2 powi (- 1074) = \<bar>q\<bar> * 2 ^ 1074"
    by (simp only: divide_inverse inverse_inverse_eq)
  have "(0::rat) < 2 ^ 1074" by (rule zero_less_power) simp
  from scaled_int_ge1[OF assms(1)[unfolded on_grid_def] assms(2) this]
  show ?thesis unfolding eq .
qed

lemma dbl_round_sign:
  assumes "on_grid q"
  shows "js_lt (Fin 0) (dbl_round q) = (0 < q)"
proof (cases "q = 0")
  case True
  then show ?thesis by (simp add: dbl_round_def)
next
  case False
  then obtain k n where k: "k = max (flog2 \<bar>q\<bar>) (- 1022) - 52"
    and n: "n = round_half_even (\<bar>q\<bar> / 2 powi k)"
    and r: "dbl_round q = (if (2::rat) ^ 1024 \<le> of_int n * 2 powi k
                         then (if q < 0 then NInf else PInf)
                         else Fin (if q < 0 then - (of_int n * 2 powi k)
                                   else of_int n * 2 powi k))"
    by (rule dbl_round_shape)
  define u where "u = (2::rat) powi k"
  have upos: "0 < u" by (simp add: u_def)
  have apos: "0 < \<bar>q\<bar>" using False by simp
  have "1 \<le> \<bar>q\<bar> / u"
  proof (cases "- 1022 \<le> flog2 \<bar>q\<bar>")
    case True
    then have ke: "k = flog2 \<bar>q\<bar> - 52" using k by simp
    have "u \<le> 2 powi (flog2 \<bar>q\<bar>)" unfolding u_def ke by (rule power_int_increasing) simp_all
    with flog2_le[OF apos] have "u \<le> \<bar>q\<bar>" by simp
    then show ?thesis using upos by (simp add: pos_le_divide_eq)
  next
    case F: False
    then have "k = - 1074" using k by simp
    then show ?thesis unfolding u_def using grid_quotient_ge1[OF assms False] by simp
  qed
  then have "1 \<le> n" unfolding n u_def by (rule round_half_even_ge1)
  then have "(0::rat) < of_int n" by simp
  then have pos: "0 < of_int n * u" using upos by simp
  show ?thesis unfolding r u_def[symmetric] using pos False by auto
qed

lemma js_lt_trans: "js_lt a b \<Longrightarrow> js_lt b c \<Longrightarrow> js_lt a c"
  by (cases a; cases b; cases c) auto

lemma js_lt_irrefl [simp]: "\<not> js_lt a a"
  by (cases a) auto

lemma js_lt_asym: "js_lt a b \<Longrightarrow> \<not> js_lt b a"
  by (cases a; cases b) auto

lemma js_lt_total: "rounded a \<Longrightarrow> rounded b \<Longrightarrow> a \<noteq> b \<Longrightarrow> js_lt a b \<or> js_lt b a"
  by (cases a; cases b) auto

lemma comparator_order:
  assumes "rounded x" and "rounded y"
  shows "js_gt (js_sub x y) (Fin 0) = js_lt y x"
proof (cases x)
  case (Fin a)
  show ?thesis
  proof (cases y)
    case (Fin b)
    with \<open>x = Fin a\<close> assms have "on_grid (a - b)" by (simp add: on_grid_diff)
    from dbl_round_sign[OF this] show ?thesis
      using Fin \<open>x = Fin a\<close> by (simp add: js_gt_def js_sub_def)
  qed (use Fin assms in \<open>simp_all add: js_gt_def js_sub_def\<close>)
next
  case NaN
  with assms show ?thesis by simp
next
  case NInf
  with assms show ?thesis by (cases y) (simp_all add: js_gt_def js_sub_def)
next
  case PInf
  with assms show ?thesis by (cases y) (simp_all add: js_gt_def js_sub_def)
qed

lemma dbl_round_near:
  assumes "0 \<le> q" and "q \<le> 2 ^ 53"
  shows "\<exists>r. dbl_round q = Fin r \<and> 0 \<le> r \<and> \<bar>r - q\<bar> \<le> 1 / 2"
proof -
  consider "q = 0" | "q = 2 ^ 53" | "0 < q" "q < 2 ^ 53" using assms by fastforce
  then show ?thesis
  proof cases
    case 1
    then show ?thesis by (simp add: dbl_round_def)
  next
    case 2
    have "dbl_round q = Fin q" unfolding 2 by (rule dbl_round_int) simp_all
    then show ?thesis using assms(1) by simp
  next
    case 3
    then have "q \<noteq> 0" by simp
    then obtain k n where k: "k = max (flog2 \<bar>q\<bar>) (- 1022) - 52"
      and n: "n = round_half_even (\<bar>q\<bar> / 2 powi k)"
      and r: "dbl_round q = (if (2::rat) ^ 1024 \<le> of_int n * 2 powi k
                         then (if q < 0 then NInf else PInf)
                         else Fin (if q < 0 then - (of_int n * 2 powi k)
                                   else of_int n * 2 powi k))"
      by (rule dbl_round_shape)
    define u where "u = (2::rat) powi k"
    have aq: "\<bar>q\<bar> = q" using 3 by simp
    have "q < 2 powi 53" using 3(2) by simp
    from flog2_less[OF 3(1) this] have "k \<le> 0" unfolding k aq by simp
    then have "u \<le> 2 powi 0" unfolding u_def by (intro power_int_increasing) simp_all
    then have u1: "u \<le> 1" by simp
    have upos: "0 < u" by (simp add: u_def)
    have "0 \<le> q / u" using 3(1) upos by simp
    then have n0: "0 \<le> n" unfolding n aq u_def by (rule round_half_even_nonneg)
    have "\<bar>of_int n - q / u\<bar> \<le> 1 / 2" unfolding n aq u_def by (rule round_half_even_near)
    then have "\<bar>of_int n - q / u\<bar> * u \<le> 1 / 2 * u" using upos by (simp add: mult_right_mono)
    moreover have "\<bar>of_int n - q / u\<bar> * u = \<bar>of_int n * u - q\<bar>"
    proof -
      have "\<bar>of_int n - q / u\<bar> * u = \<bar>(of_int n - q / u) * u\<bar>"
        using upos by (simp add: abs_mult)
      also have "(of_int n - q / u) * u = of_int n * u - q"
        using upos by (simp add: left_diff_distrib)
      finally show ?thesis .
    qed
    ultimately have near: "\<bar>of_int n * u - q\<bar> \<le> 1 / 2" using u1 by linarith
    then have "of_int n * u \<le> q + 1 / 2" by linarith
    with 3(2) have "of_int n * u < 2 ^ 53 + 1" by linarith
    moreover have "(2::rat) ^ 53 + 1 \<le> 2 ^ 1024" by simp
    ultimately have fin: "\<not> (2::rat) ^ 1024 \<le> of_int n * u" by linarith
    have nonneg: "0 \<le> of_int n * u" using n0 upos by simp
    have "dbl_round q = Fin (of_int n * u)"
      unfolding r u_def[symmetric] using fin 3(1) by (simp only: if_False) simp
    with nonneg near show ?thesis by blast
  qed
qed

section \<open>The range loop and the loop over the tokens\<close>

lemma set_set_add [simp]: "set (set_add pages x) = insert x (set pages)"
  by (auto simp: set_add_def)

lemma distinct_set_add [simp]: "distinct (set_add pages x) = distinct pages"
  by (auto simp: set_add_def)

lemma range_loop_run:
  assumes "range_loop i e pages = Some ps"
  shows "\<exists>A. (js_le i e \<longrightarrow> A \<noteq> {})
           \<and> (\<forall>pages'. \<exists>ps'. range_loop i e pages' = Some ps' \<and> set ps' = set pages' \<union> A
                  \<and> (distinct pages' \<longrightarrow> distinct ps'))"
proof (induct rule: range_loop.raw_induct[OF _ assms])
  case (1 f i e pages ps)
  show ?case
  proof (cases "js_le i e")
    case False
    then have "\<forall>pages'. range_loop i e pages' = Some pages'"
      by (simp add: range_loop.simps)
    then show ?thesis using False by (intro exI[of _ "{}"]) simp
  next
    case True
    with 1(2) have "f (js_add i (Fin 1)) e (set_add pages (js_sub i (Fin 1))) = Some ps" by simp
    from 1(1)[OF this] obtain A where
      A: "\<forall>pages'. \<exists>ps'. range_loop (js_add i (Fin 1)) e pages' = Some ps'
             \<and> set ps' = set pages' \<union> A \<and> (distinct pages' \<longrightarrow> distinct ps')"
      by blast
    have "\<exists>ps'. range_loop i e pages' = Some ps'
             \<and> set ps' = set pages' \<union> insert (js_sub i (Fin 1)) A
             \<and> (distinct pages' \<longrightarrow> distinct ps')" for pages'
      using A[rule_format, of "set_add pages' (js_sub i (Fin 1))"] True
      by (subst range_loop.simps) auto
    then show ?thesis by (intro exI[of _ "insert (js_sub i (Fin 1)) A"]) simp
  qed
qed

lemma for_body_error_iff:
  "for_body maxPage part pages = Some (Inl e)
     \<longleftrightarrow> spec_token_invalid maxPage part \<and> e = token_error maxPage part"
  by (auto simp: for_body_def spec_token_invalid_def token_error_def Let_def
           split: list.splits)

lemma js_le_if_not_gt: "\<not> isNaN a \<Longrightarrow> \<not> isNaN b \<Longrightarrow> \<not> js_gt a b \<Longrightarrow> js_le a b"
  by (cases a; cases b) (auto simp: isNaN_def js_gt_def js_le_def)

lemma for_body_run:
  assumes "for_body maxPage part pages = Some (Inr ps)"
  shows "token_pages maxPage part \<noteq> {}
         \<and> (\<forall>pages'. \<exists>ps'. for_body maxPage part pages' = Some (Inr ps')
                \<and> set ps' = set pages' \<union> token_pages maxPage part
                \<and> (distinct pages' \<longrightarrow> distinct ps'))"
proof (cases "CHR ''-'' \<in> set part")
  case False
  with assms have ok: "\<not> (isNaN (Number part) \<or> js_lt (Number part) (Fin 1)
                          \<or> js_gt (Number part) (Fin (of_nat maxPage)))"
    by (auto simp: for_body_def Let_def split: if_splits)
  then have "for_body maxPage part pages' = Some (Inr (set_add pages' (js_sub (Number part) (Fin 1))))"
    for pages'
    using False by (simp add: for_body_def Let_def)
  then show ?thesis by (simp add: token_pages_def)
next
  case True
  with assms obtain s e r where sp: "map Number (split CHR ''-'' part) = s # e # r"
    and ok: "\<not> (isNaN s \<or> isNaN e \<or> js_gt s e \<or> js_lt s (Fin 1) \<or> js_gt e (Fin (of_nat maxPage)))"
    and run: "range_loop s e pages = Some ps"
    by (auto simp: for_body_def split: list.splits if_splits)
  have fb: "for_body maxPage part pages' = map_option Inr (range_loop s e pages')" for pages'
    using True sp ok by (simp add: for_body_def)
  from ok have le: "js_le s e" by (simp add: js_le_if_not_gt)
  from range_loop_run[OF run] le obtain A where A: "A \<noteq> {}"
    "\<And>pages'. \<exists>ps'. range_loop s e pages' = Some ps' \<and> set ps' = set pages' \<union> A
                 \<and> (distinct pages' \<longrightarrow> distinct ps')"
    by blast
  from A(2)[of "[]"] have tp: "token_pages maxPage part = A"
    by (auto simp: token_pages_def fb)
  show ?thesis unfolding tp fb using A by (metis option.simps(9))
qed

lemma for_body_error_indep:
  "for_body maxPage part pages = Some (Inl e) \<Longrightarrow> for_body maxPage part pages' = Some (Inl e)"
  by (simp add: for_body_error_iff)

lemma for_parts_run:
  assumes "for_parts maxPage parts pages = Some (Inr ps)"
  shows "set ps = set pages \<union> (\<Union>part\<in>set parts. token_pages maxPage part)
         \<and> (distinct pages \<longrightarrow> distinct ps)
         \<and> (parts \<noteq> [] \<longrightarrow> ps \<noteq> [])
         \<and> (\<forall>part\<in>set parts. \<exists>ps0. for_body maxPage part [] = Some (Inr ps0))"
  using assms
proof (induction parts arbitrary: pages)
  case Nil
  then show ?case by simp
next
  case (Cons part parts)
  from Cons.prems obtain ps1 where b: "for_body maxPage part pages = Some (Inr ps1)"
    and r: "for_parts maxPage parts ps1 = Some (Inr ps)"
    by (auto split: option.splits sum.splits)
  from for_body_run[OF b] have ne: "token_pages maxPage part \<noteq> {}"
    and all: "\<And>pages'. \<exists>ps'. for_body maxPage part pages' = Some (Inr ps')
                \<and> set ps' = set pages' \<union> token_pages maxPage part
                \<and> (distinct pages' \<longrightarrow> distinct ps')"
    by blast+
  from all[of pages] b have s1: "set ps1 = set pages \<union> token_pages maxPage part"
    and d1: "distinct pages \<longrightarrow> distinct ps1" by auto
  from Cons.IH[OF r] have IH: "set ps = set ps1 \<union> (\<Union>part\<in>set parts. token_pages maxPage part)"
    "distinct ps1 \<longrightarrow> distinct ps"
    "\<forall>part\<in>set parts. \<exists>ps0. for_body maxPage part [] = Some (Inr ps0)"
    by blast+
  have "ps \<noteq> []" using IH(1) s1 ne by auto
  moreover have "\<exists>ps0. for_body maxPage part [] = Some (Inr ps0)" using all[of "[]"] by blast
  ultimately show ?case using IH s1 d1 by auto
qed

lemma for_parts_success:
  assumes "\<forall>part\<in>set parts. \<exists>ps0. for_body maxPage part [] = Some (Inr ps0)"
  shows "\<exists>ps. for_parts maxPage parts pages = Some (Inr ps)"
  using assms
proof (induction parts arbitrary: pages)
  case Nil
  then show ?case by simp
next
  case (Cons part parts)
  then obtain ps0 where "for_body maxPage part [] = Some (Inr ps0)" by auto
  from for_body_run[OF this] obtain ps1 where "for_body maxPage part pages = Some (Inr ps1)"
    by blast
  moreover from Cons obtain ps where "for_parts maxPage parts ps1 = Some (Inr ps)" by auto
  ultimately show ?case by simp
qed

lemma for_parts_error:
  "for_parts maxPage parts pages = Some (Inl e)
     \<Longrightarrow> \<exists>part\<in>set parts. spec_token_invalid maxPage part \<and> e = token_error maxPage part"
proof (induction parts arbitrary: pages)
  case Nil
  then show ?case by simp
next
  case (Cons part parts)
  show ?case
  proof (cases "for_body maxPage part pages")
    case None
    with Cons.prems show ?thesis by simp
  next
    case (Some r)
    show ?thesis
    proof (cases r)
      case (Inl e')
      with Some Cons.prems have "e' = e" by simp
      with Some Inl show ?thesis by (auto simp: for_body_error_iff)
    next
      case (Inr ps1)
      with Some Cons.prems have "for_parts maxPage parts ps1 = Some (Inl e)" by simp
      from Cons.IH[OF this] show ?thesis by auto
    qed
  qed
qed

lemma parse_error_token:
  assumes "parsePageString input maxPage = Some (Inl e)"
  shows "\<exists>part\<in>set (map trim (split CHR '','' input)).
           spec_token_invalid maxPage part \<and> e = token_error maxPage part"
proof (cases "for_parts maxPage (map trim (split CHR '','' input)) []")
  case None
  with assms show ?thesis by (simp add: parsePageString_def)
next
  case (Some r)
  show ?thesis
  proof (cases r)
    case (Inl e')
    with Some assms have "e' = e" by (simp add: parsePageString_def)
    with Some Inl for_parts_error show ?thesis by blast
  next
    case (Inr ps)
    with Some for_parts_run[of maxPage "map trim (split CHR '','' input)" "[]" ps]
    have "ps \<noteq> []" by simp
    with Some Inr assms show ?thesis by (simp add: parsePageString_def)
  qed
qed

lemma parse_success:
  assumes "parsePageString input maxPage = Some (Inr xs)"
  shows "\<exists>ps. for_parts maxPage (map trim (split CHR '','' input)) [] = Some (Inr ps)
           \<and> ps \<noteq> [] \<and> xs = sort_cmp ps"
  using assms by (auto simp: parsePageString_def split: option.splits sum.splits if_splits)

lemma token_message_neq:
  "token_error maxPage part \<noteq> ''No pages selected. Please enter page numbers to extract.''"
  "token_error maxPage part \<noteq> ''Please enter valid page numbers.''"
  by (simp_all add: token_error_def range_error_def page_error_def)

section \<open>The values in the page set\<close>

lemma js_sub_one_rounded: "i \<noteq> NaN \<Longrightarrow> rounded (js_sub i (Fin 1))"
  by (cases i) (simp_all add: js_sub_def dbl_round_rounded)

lemma js_le_not_NaN: "js_le i e \<Longrightarrow> i \<noteq> NaN"
  by (auto simp: js_le_def)

lemma range_loop_rounded:
  assumes "range_loop i e pages = Some ps"
  shows "\<forall>x\<in>set ps. x \<in> set pages \<or> rounded x"
proof (induct rule: range_loop.raw_induct[OF _ assms])
  case (1 f i e pages ps)
  show ?case
  proof (cases "js_le i e")
    case False
    with 1(2) show ?thesis by simp
  next
    case True
    with 1(2) have "f (js_add i (Fin 1)) e (set_add pages (js_sub i (Fin 1))) = Some ps" by simp
    from 1(1)[OF this] js_sub_one_rounded[OF js_le_not_NaN[OF True]]
    show ?thesis by auto
  qed
qed

lemma token_pages_rounded:
  assumes "x \<in> token_pages maxPage part"
  shows "rounded x"
proof (cases "CHR ''-'' \<in> set part")
  case False
  with assms show ?thesis
    by (auto simp: token_pages_def for_body_def Let_def isNaN_def set_add_def
        intro: js_sub_one_rounded split: if_splits)
next
  case True
  with assms obtain s e ps where "range_loop s e [] = Some ps" "x \<in> set ps"
    by (auto simp: token_pages_def for_body_def split: list.splits if_splits option.splits)
  with range_loop_rounded show ?thesis by fastforce
qed

section \<open>Sorting with the comparator\<close>

lemma set_insert_cmp [simp]: "set (insert_cmp x ys) = insert x (set ys)"
  by (induction ys) auto

lemma sorted_insert_cmp:
  assumes "sorted_wrt js_lt ys" and "rounded x" and "\<forall>y\<in>set ys. rounded y" and "x \<notin> set ys"
  shows "sorted_wrt js_lt (insert_cmp x ys)"
  using assms
proof (induction ys)
  case Nil
  then show ?case by simp
next
  case (Cons y ys)
  have cmp: "js_gt (js_sub x y) (Fin 0) = js_lt y x"
    using Cons.prems by (simp add: comparator_order)
  show ?case
  proof (cases "js_lt y x")
    case True
    with Cons show ?thesis by (auto simp: cmp)
  next
    case False
    with Cons.prems js_lt_total[of x y] have xy: "js_lt x y" by auto
    then have "\<forall>z\<in>set ys. js_lt x z" using Cons.prems(1) by (auto intro: js_lt_trans)
    with xy False Cons.prems(1) show ?thesis by (simp add: cmp)
  qed
qed

lemma set_sort_cmp [simp]: "set (sort_cmp xs) = set xs"
  by (induction xs) (simp_all add: sort_cmp_def)

lemma sorted_sort_cmp:
  assumes "distinct xs" and "\<forall>x\<in>set xs. rounded x"
  shows "sorted_wrt js_lt (sort_cmp xs)"
  using assms
proof (induction xs)
  case Nil
  then show ?case by (simp add: sort_cmp_def)
next
  case (Cons x xs)
  then have "sorted_wrt js_lt (sort_cmp xs)" by simp
  from sorted_insert_cmp[OF this, of x] Cons.prems
  have "sorted_wrt js_lt (insert_cmp x (sort_cmp xs))" by simp
  then show ?case by (simp add: sort_cmp_def)
qed

lemma sorted_wrt_js_lt_distinct: "sorted_wrt js_lt xs \<Longrightarrow> distinct xs"
  by (induction xs) auto

lemma sorted_wrt_js_lt_unique:
  assumes "sorted_wrt js_lt xs" and "sorted_wrt js_lt ys" and "set xs = set ys"
  shows "xs = ys"
  using assms
proof (induction xs arbitrary: ys)
  case Nil
  then show ?case by simp
next
  case (Cons x xs)
  then obtain y ys' where ys: "ys = y # ys'" by (cases ys) auto
  have "x = y"
  proof (rule ccontr)
    assume ne: "x \<noteq> y"
    with Cons.prems(3) ys have "x \<in> set ys'" "y \<in> set xs" by auto
    with Cons.prems(1,2) ys have "js_lt y x" "js_lt x y" by auto
    then show False using js_lt_asym by blast
  qed
  moreover have "x \<notin> set xs" "y \<notin> set ys'" using Cons.prems(1,2) ys by auto
  ultimately have "set xs = set ys'" using Cons.prems(3) ys by auto
  with Cons.IH[of ys'] Cons.prems(1,2) ys \<open>x = y\<close> show ?case by simp
qed

lemma sort_cmp_sorted:
  assumes "sorted_wrt js_lt xs" and "\<forall>x\<in>set xs. rounded x"
  shows "sort_cmp xs = xs"
proof -
  have "distinct xs" using assms(1) by (rule sorted_wrt_js_lt_distinct)
  from sorted_sort_cmp[OF this assms(2)] assms(1) show ?thesis
    by (rule sorted_wrt_js_lt_unique) simp
qed

section \<open>Invariants of the range loop\<close>

lemma range_loop_rule:
  assumes run: "range_loop i e pages = Some ps"
    and step: "\<And>i pages. I i pages \<Longrightarrow> js_le i e
                 \<Longrightarrow> I (js_add i (Fin 1)) (set_add pages (js_sub i (Fin 1)))"
  shows "I i pages \<Longrightarrow> \<exists>i'. I i' ps \<and> \<not> js_le i' e"
  using step
proof (induct rule: range_loop.raw_induct[OF _ run])
  case (1 f i e pages ps)
  show ?case
  proof (cases "js_le i e")
    case False
    with 1(2,3) show ?thesis by auto
  next
    case True
    with 1(2) have f: "f (js_add i (Fin 1)) e (set_add pages (js_sub i (Fin 1))) = Some ps"
      by simp
    from 1(4)[OF 1(3) True] have "I (js_add i (Fin 1)) (set_add pages (js_sub i (Fin 1)))" .
    from 1(1)[OF f this 1(4)] show ?thesis by blast
  qed
qed

section \<open>Bounds kept by the range loop\<close>

lemma is_int_Fin: "is_int (Fin r) \<longleftrightarrow> r \<in> \<int>"
  by (auto simp: Ints_def)

lemma safe_bound:
  assumes "maxPage \<le> MAX_SAFE_INTEGER"
  shows "(of_nat maxPage :: rat) \<le> 2 ^ 53 - 1"
proof -
  from assms have "maxPage + 1 \<le> 2 ^ 53" by (simp add: MAX_SAFE_INTEGER_def)
  then have "(of_nat (maxPage + 1) :: rat) \<le> of_nat (2 ^ 53)" by (simp only: of_nat_le_iff)
  then show ?thesis by simp
qed

lemma guard_page:
  assumes "\<not> isNaN p" and "\<not> js_lt p (Fin 1)" and "\<not> js_gt p (Fin M)"
  obtains q where "p = Fin q" and "1 \<le> q" and "q \<le> M"
  using assms by (cases p) (auto simp: isNaN_def js_gt_def)

lemma guard_range:
  assumes "\<not> isNaN s" and "\<not> isNaN e" and "\<not> js_gt s e" and "\<not> js_lt s (Fin 1)"
    and "\<not> js_gt e (Fin M)"
  obtains a b where "s = Fin a" and "e = Fin b" and "1 \<le> a" and "a \<le> b" and "b \<le> M"
  using assms by (cases s; cases e) (auto simp: isNaN_def js_gt_def)

text \<open>One step of the range loop below \<open>2^53\<close>: the index added and the next counter.\<close>

lemma step_sub:
  assumes "1 \<le> q" and "q \<le> M" and "M \<le> 2 ^ 53 - 1"
  shows "\<exists>r. js_sub (Fin q) (Fin 1) = Fin r \<and> 0 \<le> r \<and> r < M \<and> (q \<in> \<int> \<longrightarrow> r \<in> \<int>)"
proof -
  have s: "js_sub (Fin q) (Fin 1) = dbl_round (q - 1)" by (simp add: js_sub_def)
  have b: "0 \<le> q - 1" "q - 1 \<le> 2 ^ 53" using assms by linarith+
  from dbl_round_near[OF b] obtain r where r: "dbl_round (q - 1) = Fin r" "0 \<le> r"
    "\<bar>r - (q - 1)\<bar> \<le> 1 / 2" by blast
  have "r < M" using r(3) assms(2) by linarith
  moreover have "r \<in> \<int>" if "q \<in> \<int>"
  proof -
    from that have "q - 1 \<in> \<int>" by simp
    moreover have "\<bar>q - 1\<bar> \<le> 2 ^ 53" using b by linarith
    ultimately have "dbl_round (q - 1) = Fin (q - 1)" by (rule dbl_round_int)
    with r(1) \<open>q - 1 \<in> \<int>\<close> show ?thesis by simp
  qed
  ultimately show ?thesis using s r(1,2) by auto
qed

lemma step_add:
  assumes "1 \<le> q" and "q \<le> M" and "M \<le> 2 ^ 53 - 1"
  shows "\<exists>r. js_add (Fin q) (Fin 1) = Fin r \<and> 1 \<le> r \<and> (q \<in> \<int> \<longrightarrow> r \<in> \<int>)"
proof -
  have b: "0 \<le> q + 1" "q + 1 \<le> 2 ^ 53" using assms by linarith+
  from dbl_round_near[OF b] obtain r where r: "dbl_round (q + 1) = Fin r" "0 \<le> r"
    "\<bar>r - (q + 1)\<bar> \<le> 1 / 2" by blast
  have "1 \<le> r" using r(3) assms(1) by linarith
  moreover have "r \<in> \<int>" if "q \<in> \<int>"
  proof -
    from that have "q + 1 \<in> \<int>" by simp
    moreover have "\<bar>q + 1\<bar> \<le> 2 ^ 53" using b by linarith
    ultimately have "dbl_round (q + 1) = Fin (q + 1)" by (rule dbl_round_int)
    with r(1) \<open>q + 1 \<in> \<int>\<close> show ?thesis by simp
  qed
  ultimately show ?thesis using r(1) by auto
qed

lemma js_le_Fin: "js_le (Fin a) (Fin b) = (a \<le> b)"
  by (auto simp: js_le_def)

lemma range_loop_bounds:
  assumes run: "range_loop (Fin s) (Fin e) pages = Some ps"
    and s1: "1 \<le> s" and eM: "e \<le> M" and M: "M \<le> 2 ^ 53 - 1"
    and pg: "\<forall>x\<in>set pages. \<exists>r. x = Fin r \<and> 0 \<le> r \<and> r < M \<and> (ints \<longrightarrow> r \<in> \<int>)"
    and si: "ints \<longrightarrow> s \<in> \<int>"
  shows "\<forall>x\<in>set ps. \<exists>r. x = Fin r \<and> 0 \<le> r \<and> r < M \<and> (ints \<longrightarrow> r \<in> \<int>)"
proof -
  define I where "I i pages \<longleftrightarrow>
      (\<exists>q. i = Fin q \<and> 1 \<le> q \<and> (ints \<longrightarrow> q \<in> \<int>))
      \<and> (\<forall>x\<in>set pages. \<exists>r. x = Fin r \<and> 0 \<le> r \<and> r < M \<and> (ints \<longrightarrow> r \<in> \<int>))"
    for i pages
  have step: "I (js_add i (Fin 1)) (set_add pages (js_sub i (Fin 1)))"
    if "I i pages" and le: "js_le i (Fin e)" for i pages
  proof -
    from that(1) obtain q where q: "i = Fin q" "1 \<le> q" "ints \<longrightarrow> q \<in> \<int>"
      and pgs: "\<forall>x\<in>set pages. \<exists>r. x = Fin r \<and> 0 \<le> r \<and> r < M \<and> (ints \<longrightarrow> r \<in> \<int>)"
      unfolding I_def by blast
    from le q(1) eM have qM: "q \<le> M" by (simp add: js_le_Fin)
    from step_sub[OF q(2) qM M] obtain r where
      r: "js_sub (Fin q) (Fin 1) = Fin r" "0 \<le> r" "r < M" "q \<in> \<int> \<longrightarrow> r \<in> \<int>" by blast
    from step_add[OF q(2) qM M] obtain r' where
      r': "js_add (Fin q) (Fin 1) = Fin r'" "1 \<le> r'" "q \<in> \<int> \<longrightarrow> r' \<in> \<int>" by blast
    show ?thesis unfolding I_def q(1) r(1) r'(1) using r r' q(3) pgs by auto
  qed
  have "I (Fin s) pages" unfolding I_def using s1 si pg by blast
  from range_loop_rule[OF run step this] show ?thesis unfolding I_def by blast
qed

lemma token_start_page: "CHR ''-'' \<notin> set part \<Longrightarrow> token_start part = Number part"
  by (simp add: token_start_def split_notin)

lemma for_body_bounds:
  assumes safe: "maxPage \<le> MAX_SAFE_INTEGER"
    and run: "for_body maxPage part pages = Some (Inr ps)"
    and pg: "\<forall>x\<in>set pages. \<exists>r. x = Fin r \<and> 0 \<le> r \<and> r < of_nat maxPage \<and> (ints \<longrightarrow> r \<in> \<int>)"
    and si: "ints \<longrightarrow> is_int (token_start part)"
  shows "\<forall>x\<in>set ps. \<exists>r. x = Fin r \<and> 0 \<le> r \<and> r < of_nat maxPage \<and> (ints \<longrightarrow> r \<in> \<int>)"
proof (cases "CHR ''-'' \<in> set part")
  case False
  with run have ok: "\<not> isNaN (Number part)" "\<not> js_lt (Number part) (Fin 1)"
    "\<not> js_gt (Number part) (Fin (of_nat maxPage))"
    and ps: "ps = set_add pages (js_sub (Number part) (Fin 1))"
    by (auto simp: for_body_def Let_def split: if_splits)
  from ok obtain q where q: "Number part = Fin q" "1 \<le> q" "q \<le> of_nat maxPage"
    by (rule guard_page)
  from si False q(1) have qi: "ints \<longrightarrow> q \<in> \<int>"
    by (simp add: token_start_page is_int_Fin del: is_int.simps)
  from step_sub[OF q(2,3) safe_bound[OF safe]] obtain r where
    "js_sub (Fin q) (Fin 1) = Fin r" "0 \<le> r" "r < of_nat maxPage" "q \<in> \<int> \<longrightarrow> r \<in> \<int>" by blast
  with pg qi show ?thesis unfolding ps q(1) by auto
next
  case True
  with run obtain s e r where sp: "map Number (split CHR ''-'' part) = s # e # r"
    and ok: "\<not> isNaN s" "\<not> isNaN e" "\<not> js_gt s e" "\<not> js_lt s (Fin 1)"
      "\<not> js_gt e (Fin (of_nat maxPage))"
    and loop: "range_loop s e pages = Some ps"
    by (auto simp: for_body_def split: list.splits if_splits)
  from ok obtain a b where ab: "s = Fin a" "e = Fin b" "1 \<le> a" "a \<le> b" "b \<le> of_nat maxPage"
    by (rule guard_range)
  from sp have "token_start part = s" unfolding token_start_def
    by (cases "split CHR ''-'' part") auto
  with si ab(1) have ai: "ints \<longrightarrow> a \<in> \<int>" by (simp add: is_int_Fin del: is_int.simps)
  from range_loop_bounds[OF loop[unfolded ab(1,2)] ab(3,5) safe_bound[OF safe] pg ai]
  show ?thesis .
qed

lemma for_parts_bounds:
  assumes safe: "maxPage \<le> MAX_SAFE_INTEGER"
    and run: "for_parts maxPage parts pages = Some (Inr ps)"
    and pg: "\<forall>x\<in>set pages. \<exists>r. x = Fin r \<and> 0 \<le> r \<and> r < of_nat maxPage \<and> (ints \<longrightarrow> r \<in> \<int>)"
    and si: "ints \<longrightarrow> (\<forall>t\<in>set parts. is_int (token_start t))"
  shows "\<forall>x\<in>set ps. \<exists>r. x = Fin r \<and> 0 \<le> r \<and> r < of_nat maxPage \<and> (ints \<longrightarrow> r \<in> \<int>)"
  using run pg si
proof (induction parts arbitrary: pages)
  case Nil
  then show ?case by simp
next
  case (Cons part parts)
  from Cons.prems(1) obtain ps1 where b: "for_body maxPage part pages = Some (Inr ps1)"
    and r: "for_parts maxPage parts ps1 = Some (Inr ps)"
    by (auto split: option.splits sum.splits)
  from Cons.prems(3) have "ints \<longrightarrow> is_int (token_start part)" by simp
  from for_body_bounds[OF safe b Cons.prems(2) this]
  have "\<forall>x\<in>set ps1. \<exists>r. x = Fin r \<and> 0 \<le> r \<and> r < of_nat maxPage \<and> (ints \<longrightarrow> r \<in> \<int>)" .
  from Cons.IH[OF r this] Cons.prems(3) show ?case by simp
qed

section \<open>Decimal numerals and ranges of integers\<close>

lemma of_char_digit: "(d::nat) < 10 \<Longrightarrow> (of_char (char_of (48 + d)) :: nat) = 48 + d"
  by simp

lemma is_digit_char: "(d::nat) < 10 \<Longrightarrow> is_digit (char_of (48 + d))"
  by (simp add: is_digit_def)

lemma digit_val_char: "(d::nat) < 10 \<Longrightarrow> digit_val (char_of (48 + d)) = Some d"
  by (simp add: digit_val_def)

lemma dec_not_Nil [simp]: "dec n \<noteq> []"
  by (subst dec.simps) simp

lemma dec_digits: "c \<in> set (dec n) \<Longrightarrow> is_digit c"
proof (induction n arbitrary: c rule: dec.induct)
  case (1 n)
  show ?case
  proof (cases "n < 10")
    case True
    with 1(2) show ?thesis by (subst (asm) dec.simps) (simp add: is_digit_char)
  next
    case False
    with 1(2) have "c \<in> set (dec (n div 10)) \<or> c = char_of (48 + n mod 10)"
      by (subst (asm) dec.simps) auto
    then show ?thesis using 1(1)[OF False] by (auto simp: is_digit_char)
  qed
qed

lemma digits_val_snoc:
  "digits_val b (ds @ [c]) = digits_val b ds * b + (case digit_val c of None \<Rightarrow> 0 | Some v \<Rightarrow> v)"
  by (simp add: digits_val_def)

lemma digits_val_dec: "digits_val 10 (dec n) = n"
proof (induction n rule: dec.induct)
  case (1 n)
  show ?case
  proof (cases "n < 10")
    case True
    then show ?thesis by (subst dec.simps) (simp add: digits_val_def digit_val_char)
  next
    case False
    have "digits_val 10 (dec n) = digits_val 10 (dec (n div 10)) * 10 + n mod 10"
      using False by (subst dec.simps) (simp add: digits_val_snoc digit_val_char)
    with 1[OF False] show ?thesis by simp
  qed
qed

lemma digit_not_ws: "is_digit c \<Longrightarrow> \<not> is_ws c"
  by (auto simp: is_digit_def is_ws_def)

lemma digit_not_sep: "is_digit c \<Longrightarrow> c \<noteq> CHR ''-'' \<and> c \<noteq> CHR '','' \<and> c \<noteq> CHR ''+''"
  by (auto simp: is_digit_def)

lemma trim_id:
  assumes "s \<noteq> []" and "\<not> is_ws (hd s)" and "\<not> is_ws (last s)"
  shows "trim s = s"
proof -
  from assms(1,2) have 1: "dropWhile is_ws s = s" by (cases s) simp_all
  from assms(1,3) have 2: "dropWhile is_ws (rev s) = rev s"
    by (cases "rev s") (simp_all add: hd_rev[symmetric] del: hd_rev)
  show ?thesis by (simp add: trim_def 1 2)
qed

lemma dec_hd_last: "is_digit (hd (dec n))" "is_digit (last (dec n))"
  using dec_digits[of _ n] dec_not_Nil[of n] by (simp_all add: hd_in_set last_in_set del: dec_not_Nil)

lemma non_decimal_dec: "non_decimal (dec n) = None"
proof (cases "dec n")
  case Nil
  then show ?thesis by simp
next
  case (Cons z r)
  show ?thesis
  proof (cases r)
    case Nil
    with Cons show ?thesis by (simp add: non_decimal_def)
  next
    case (Cons x ds)
    with \<open>dec n = z # r\<close> have "x \<in> set (dec n)" by simp
    then have "is_digit x" by (rule dec_digits)
    then have "x \<noteq> CHR ''x''" "x \<noteq> CHR ''X''" "x \<noteq> CHR ''o''" "x \<noteq> CHR ''O''"
      "x \<noteq> CHR ''b''" "x \<noteq> CHR ''B''" by (auto simp: is_digit_def)
    with Cons \<open>dec n = z # r\<close> show ?thesis by (simp add: non_decimal_def)
  qed
qed

lemma Number_dec:
  assumes "n \<le> 2 ^ 53"
  shows "Number (dec n) = Fin (of_nat n)"
proof -
  have t: "trim (dec n) = dec n"
    using dec_hd_last[of n] by (intro trim_id) (simp_all add: digit_not_ws)
  obtain c r where cr: "dec n = c # r" using dec_not_Nil[of n] by (cases "dec n") auto
  have c: "is_digit c" using dec_hd_last(1)[of n] cr by simp
  then have csign: "c \<noteq> CHR ''+''" "c \<noteq> CHR ''-''" using digit_not_sep by blast+
  have inf: "dec n \<noteq> ''Infinity''" using c cr by (auto simp: is_digit_def)
  have tw: "takeWhile is_digit (dec n) = dec n" "dropWhile is_digit (dec n) = []"
    using dec_digits[of _ n] by simp_all
  have "(of_nat n :: rat) \<le> of_nat (2 ^ 53)" using assms by (simp only: of_nat_le_iff)
  then have "dbl_round (of_nat n) = Fin (of_nat n)" by (intro dbl_round_int) simp_all
  then have u: "str_unsigned_decimal (dec n) = Some (Fin (of_nat n))"
    using inf by (simp add: str_unsigned_decimal_def tw exponent_part_def digits_val_dec)
  have "str_numeric_literal (dec n) = Some (Fin (of_nat n))"
    unfolding str_numeric_literal_def non_decimal_dec using csign u by (simp add: cr)
  then show ?thesis by (simp add: Number_def t)
qed

lemma on_grid_of_nat: "on_grid (of_nat n)"
proof -
  have "(of_nat n :: rat) * 2 ^ 1074 = of_int (int n * 2 ^ 1074)" by simp
  then show ?thesis unfolding on_grid_def by (metis Ints_of_int)
qed

lemma foldl_set_add_fresh:
  "distinct xs \<Longrightarrow> set xs \<inter> set pages = {} \<Longrightarrow> foldl set_add pages xs = pages @ xs"
proof (induction xs arbitrary: pages)
  case Nil
  then show ?case by simp
next
  case (Cons x xs)
  then have "set_add pages x = pages @ [x]" by (simp add: set_add_def)
  moreover have "foldl set_add (pages @ [x]) xs = (pages @ [x]) @ xs"
    using Cons.prems by (intro Cons.IH) auto
  ultimately show ?case by simp
qed

lemma set_foldl_set_add: "set (foldl set_add pages xs) = set pages \<union> set xs"
  by (induction xs arbitrary: pages) auto

lemma range_loop_nat:
  assumes "1 \<le> a" and "b < 2 ^ 53"
  shows "range_loop (Fin (of_nat a)) (Fin (of_nat b)) pages
           = Some (foldl set_add pages (map (\<lambda>n. Fin (of_nat n)) [a - 1..<b]))"
  using assms(1)
proof (induction "b + 1 - a" arbitrary: a pages)
  case 0
  then have "b < a" by simp
  then have "\<not> js_le (Fin (of_nat a)) (Fin (of_nat b))" by (simp add: js_le_Fin)
  moreover have e: "[a - 1..<b] = []" using \<open>b < a\<close> by simp
  ultimately show ?case unfolding e by (subst range_loop.simps) simp
next
  case (Suc k)
  then have ab: "a \<le> b" by simp
  then have le: "js_le (Fin (of_nat a)) (Fin (of_nat b))" by (simp add: js_le_Fin)
  have "(of_nat (a + 1) :: rat) \<le> of_nat (2 ^ 53)" using ab assms(2) by (simp only: of_nat_le_iff)
  then have "dbl_round (of_nat a + 1) = Fin (of_nat a + 1)" by (intro dbl_round_int) simp_all
  then have add: "js_add (Fin (of_nat a)) (Fin 1) = Fin (of_nat (a + 1))" by simp
  have "(of_nat (a - 1) :: rat) \<le> of_nat (2 ^ 53)" using ab assms(2) by (simp only: of_nat_le_iff)
  then have "dbl_round (of_nat (a - 1)) = Fin (of_nat (a - 1))" by (intro dbl_round_int) simp_all
  moreover have "(of_nat (a - 1) :: rat) = of_nat a - 1" using Suc.prems by (simp add: of_nat_diff)
  ultimately have sub: "js_sub (Fin (of_nat a)) (Fin 1) = Fin (of_nat (a - 1))"
    by (simp add: js_sub_def)
  have IH: "range_loop (Fin (of_nat (a + 1))) (Fin (of_nat b)) (set_add pages (Fin (of_nat (a - 1))))
          = Some (foldl set_add (set_add pages (Fin (of_nat (a - 1))))
                    (map (\<lambda>n. Fin (of_nat n)) [a + 1 - 1..<b]))"
    using Suc.hyps(2) by (intro Suc.hyps(1)) simp_all
  have upt: "[a - 1..<b] = (a - 1) # [a..<b]" using ab Suc.prems by (simp add: upt_conv_Cons)
  have "range_loop (Fin (of_nat a)) (Fin (of_nat b)) pages
          = range_loop (js_add (Fin (of_nat a)) (Fin 1)) (Fin (of_nat b))
              (set_add pages (js_sub (Fin (of_nat a)) (Fin 1)))"
    by (subst range_loop.simps) (simp only: le if_True)
  also have "\<dots> = range_loop (Fin (of_nat (a + 1))) (Fin (of_nat b))
                      (set_add pages (Fin (of_nat (a - 1))))"
    by (simp only: add sub)
  also have "\<dots> = Some (foldl set_add (set_add pages (Fin (of_nat (a - 1))))
                          (map (\<lambda>n. Fin (of_nat n)) [a..<b]))"
    using IH by simp
  also have "\<dots> = Some (foldl set_add pages (map (\<lambda>n. Fin (of_nat n)) [a - 1..<b]))"
    unfolding upt by simp
  finally show ?case .
qed

section \<open>White space around tokens and hyphens\<close>

lemma split_sep_append: "split c (x @ c # y) = split c x @ split c y"
  by (induction x) (auto simp: neq_Nil_conv)

lemma split_append:
  "split c (a @ b) = butlast (split c a) @ (last (split c a) @ hd (split c b)) # tl (split c b)"
proof (induction a)
  case Nil
  then show ?case by simp
next
  case (Cons x a)
  obtain p ps where s: "split c a = p # ps" using split_not_Nil[of c a] by (cases "split c a") auto
  from Cons show ?case by (cases ps) (auto simp: s)
qed

lemma split_append_nosep_right:
  assumes "c \<notin> set w"
  shows "split c (x @ w) = butlast (split c x) @ [last (split c x) @ w]"
  unfolding split_append[of c x w] using assms by (simp add: split_notin)

lemma split_append_nosep_left:
  assumes "c \<notin> set w"
  shows "split c (w @ y) = (w @ hd (split c y)) # tl (split c y)"
  unfolding split_append[of c w y] using assms by (simp add: split_notin)

lemma trim_ws_left: "list_all is_ws l \<Longrightarrow> trim (l @ p) = trim p"
  by (simp add: trim_def dropWhile_append2 list_all_iff)

lemma trim_ws_right:
  assumes "list_all is_ws r"
  shows "trim (p @ r) = trim p"
proof (cases "list_all is_ws p")
  case True
  with assms have a: "dropWhile is_ws (p @ r) = []"
    unfolding dropWhile_eq_Nil_conv by (auto simp: list_all_iff)
  from True have b: "dropWhile is_ws p = []"
    unfolding dropWhile_eq_Nil_conv by (auto simp: list_all_iff)
  show ?thesis unfolding trim_def a b ..
next
  case False
  then obtain x where "x \<in> set p" "\<not> is_ws x" by (auto simp: list_all_iff)
  then have 1: "dropWhile is_ws (p @ r) = dropWhile is_ws p @ r" by (rule dropWhile_append1)
  have 2: "dropWhile is_ws (rev r @ ys) = dropWhile is_ws ys" for ys
    using assms by (intro dropWhile_append2) (simp add: list_all_iff)
  show ?thesis by (simp add: trim_def 1 2)
qed

lemma trim_pad: "list_all is_ws l \<Longrightarrow> list_all is_ws r \<Longrightarrow> trim (l @ p @ r) = trim p"
  by (simp add: trim_ws_left trim_ws_right)

lemma trim_decomp:
  obtains l r where "list_all is_ws l" and "list_all is_ws r" and "t = l @ trim t @ r"
proof -
  let ?m = "dropWhile is_ws t"
  have "rev (takeWhile is_ws (rev ?m) @ dropWhile is_ws (rev ?m)) = ?m"
    by (simp only: takeWhile_dropWhile_id rev_rev_ident)
  then have m: "?m = trim t @ rev (takeWhile is_ws (rev ?m))"
    by (simp only: rev_append trim_def)
  have "t = takeWhile is_ws t @ ?m" by simp
  with m have "t = takeWhile is_ws t @ trim t @ rev (takeWhile is_ws (rev ?m))" by simp
  moreover have "list_all is_ws (takeWhile is_ws t)"
    by (auto simp: list_all_iff dest: set_takeWhileD)
  moreover have "list_all is_ws (rev (takeWhile is_ws (rev ?m)))"
    by (auto simp: list_all_iff dest: set_takeWhileD)
  ultimately show ?thesis by (rule that[rotated 2])
qed

lemma trim_trim [simp]: "trim (trim t) = trim t"
proof -
  obtain l r where "list_all is_ws l" "list_all is_ws r" "t = l @ trim t @ r" by (rule trim_decomp)
  then show ?thesis using trim_pad[of l r "trim t"] by simp
qed

lemma Number_trim [simp]: "Number (trim p) = Number p"
  by (simp add: Number_def)

lemma ws_not_sep: "list_all is_ws w \<Longrightarrow> CHR ''-'' \<notin> set w \<and> CHR '','' \<notin> set w"
  by (auto simp: list_all_iff is_ws_def)

lemma map_trim_split_right:
  assumes "list_all is_ws r" and "c \<notin> set r"
  shows "map trim (split c (s @ r)) = map trim (split c s)"
proof -
  have "map trim (split c (s @ r)) = map trim (butlast (split c s)) @ [trim (last (split c s))]"
    using assms by (simp add: split_append_nosep_right trim_ws_right)
  also have "\<dots> = map trim (butlast (split c s) @ [last (split c s)])"
    by (simp only: map_append list.map)
  also have "butlast (split c s) @ [last (split c s)] = split c s"
    by (rule append_butlast_last_id) simp
  finally show ?thesis .
qed

lemma map_trim_split_left:
  assumes "list_all is_ws l" and "c \<notin> set l"
  shows "map trim (split c (l @ s)) = map trim (split c s)"
proof -
  have "map trim (split c (l @ s)) = trim (hd (split c s)) # map trim (tl (split c s))"
    using assms by (simp add: split_append_nosep_left trim_ws_left)
  also have "\<dots> = map trim (hd (split c s) # tl (split c s))"
    by (simp only: list.map)
  also have "hd (split c s) # tl (split c s) = split c s"
    by (rule list.collapse) simp
  finally show ?thesis .
qed

lemma map_trim_split_trim: "\<not> is_ws c \<Longrightarrow> map trim (split c (trim t)) = map trim (split c t)"
proof -
  assume c: "\<not> is_ws c"
  obtain l r where lr: "list_all is_ws l" "list_all is_ws r" and t: "t = l @ trim t @ r"
    by (rule trim_decomp)
  from c lr have n: "c \<notin> set l" "c \<notin> set r" by (auto simp: list_all_iff)
  have "map trim (split c t) = map trim (split c (l @ trim t @ r))" using t by simp
  also have "\<dots> = map trim (split c (trim t @ r))" using lr(1) n(1) by (rule map_trim_split_left)
  also have "\<dots> = map trim (split c (trim t))" using lr(2) n(2) by (rule map_trim_split_right)
  finally show ?thesis by simp
qed

lemma mem_iff_split: "c \<in> set s \<longleftrightarrow> 2 \<le> length (split c s)"
proof
  assume "c \<in> set s"
  from length_split_ge2[OF this] show "2 \<le> length (split c s)" by auto
next
  assume "2 \<le> length (split c s)"
  then show "c \<in> set s" by (cases "c \<in> set s") (simp_all add: split_notin)
qed

lemma for_body_pieces:
  assumes "map trim (split CHR ''-'' part') = map trim (split CHR ''-'' part)"
  shows "for_body maxPage part' pages
           = map_option (map_sum (\<lambda>_. token_error maxPage part') id)
               (for_body maxPage part pages)"
proof -
  from assms have "length (map trim (split CHR ''-'' part')) = length (map trim (split CHR ''-'' part))"
    by simp
  then have hy: "CHR ''-'' \<in> set part' \<longleftrightarrow> CHR ''-'' \<in> set part"
    by (simp add: mem_iff_split)
  have "map Number (map trim (split CHR ''-'' part')) = map Number (map trim (split CHR ''-'' part))"
    using assms by simp
  then have nums: "map Number (split CHR ''-'' part') = map Number (split CHR ''-'' part)"
    by (simp add: comp_def)
  show ?thesis
  proof (cases "CHR ''-'' \<in> set part")
    case True
    with hy have h': "CHR ''-'' \<in> set part'" by simp
    show ?thesis unfolding for_body_def nums token_error_def
      using True h' by (simp add: option.map_comp comp_def split: list.splits)
  next
    case False
    with hy have h': "CHR ''-'' \<notin> set part'" by simp
    from assms False h' have "trim part' = trim part" by (simp add: split_notin)
    then have "Number (trim part') = Number (trim part)" by simp
    then have "Number part' = Number part" by simp
    then show ?thesis unfolding for_body_def token_error_def
      using False h' by (simp add: Let_def)
  qed
qed

lemma outcome_simps [simp]:
  "outcome None = None" "outcome (Some (Inl e)) = Some (Inl ())" "outcome (Some (Inr xs)) = Some (Inr xs)"
  by (simp_all add: outcome_def)

lemma outcome_Inl_iff: "outcome r = Some (Inl ()) \<longleftrightarrow> (\<exists>e. r = Some (Inl e))"
proof (cases r)
  case None
  then show ?thesis by simp
next
  case (Some x)
  then show ?thesis by (cases x) simp_all
qed

lemma outcome_Inr_iff: "outcome r = Some (Inr xs) \<longleftrightarrow> r = Some (Inr xs)"
proof (cases r)
  case None
  then show ?thesis by simp
next
  case (Some x)
  then show ?thesis by (cases x) simp_all
qed

lemma outcome_None_iff: "outcome r = None \<longleftrightarrow> r = None"
  by (simp add: outcome_def)

lemma for_parts_pieces:
  assumes "list_all2 (\<lambda>p p'. map trim (split CHR ''-'' p') = map trim (split CHR ''-'' p)) parts parts'"
  shows "outcome (for_parts maxPage parts' pages) = outcome (for_parts maxPage parts pages)"
  using assms
proof (induction parts parts' arbitrary: pages rule: list_all2_induct)
  case Nil
  then show ?case by simp
next
  case (Cons p ps p' ps')
  from for_body_pieces[OF Cons.hyps(1)]
  have b: "for_body maxPage p' pages
             = map_option (map_sum (\<lambda>_. token_error maxPage p') id) (for_body maxPage p pages)" .
  show ?case
  proof (cases "for_body maxPage p pages")
    case None
    with b show ?thesis by simp
  next
    case (Some r)
    with b Cons.IH show ?thesis by (cases r) simp_all
  qed
qed

lemma pieces_tokens:
  assumes "pieces input' = pieces input"
  shows "list_all2 (\<lambda>p p'. map trim (split CHR ''-'' p') = map trim (split CHR ''-'' p))
           (map trim (split CHR '','' input)) (map trim (split CHR '','' input'))"
proof -
  have ws: "\<not> is_ws CHR ''-''" by (simp add: is_ws_def)
  from assms have "list_all2 (\<lambda>t t'. map trim (split CHR ''-'' t') = map trim (split CHR ''-'' t))
                     (split CHR '','' input) (split CHR '','' input')"
    unfolding pieces_def by (simp add: list.rel_eq[symmetric] list.rel_map del: list.rel_eq) (simp add: list_all2_conv_all_nth)
  then show ?thesis by (simp add: list.rel_map map_trim_split_trim[OF ws])
qed

lemma parse_pieces:
  assumes "pieces input' = pieces input"
  shows "outcome (parsePageString input' maxPage) = outcome (parsePageString input maxPage)"
proof -
  let ?ts = "map trim (split CHR '','' input)" and ?ts' = "map trim (split CHR '','' input')"
  from for_parts_pieces[OF pieces_tokens[OF assms]]
  have o: "outcome (for_parts maxPage ?ts' []) = outcome (for_parts maxPage ?ts [])" .
  have ne: "ps \<noteq> []" if "for_parts maxPage (map trim (split CHR '','' s)) [] = Some (Inr ps)" for s ps
    using for_parts_run[OF that] by simp
  show ?thesis
  proof (cases "for_parts maxPage ?ts []")
    case None
    with o have "for_parts maxPage ?ts' [] = None" by (simp add: outcome_None_iff)
    with None show ?thesis by (simp add: parsePageString_def)
  next
    case (Some r)
    show ?thesis
    proof (cases r)
      case (Inl e)
      with Some o obtain e' where "for_parts maxPage ?ts' [] = Some (Inl e')"
        by (auto simp: outcome_Inl_iff)
      with Some Inl show ?thesis by (simp add: parsePageString_def)
    next
      case (Inr ps)
      with Some o have r': "for_parts maxPage ?ts' [] = Some (Inr ps)"
        by (simp add: outcome_Inr_iff)
      from Some Inr have r: "for_parts maxPage ?ts [] = Some (Inr ps)" by simp
      from ne[OF r] r r' show ?thesis by (simp add: parsePageString_def)
    qed
  qed
qed

lemma parse_tokens_eq:
  assumes "map trim (split CHR '','' input') = map trim (split CHR '','' input)"
  shows "parsePageString input' maxPage = parsePageString input maxPage"
proof (cases "for_parts maxPage (map trim (split CHR '','' input)) []")
  case None
  then show ?thesis by (simp add: parsePageString_def assms)
next
  case (Some r)
  show ?thesis
  proof (cases r)
    case (Inl e)
    with Some show ?thesis by (simp add: parsePageString_def assms)
  next
    case (Inr ps)
    with Some for_parts_run[of maxPage "map trim (split CHR '','' input)" "[]" ps]
    have "ps \<noteq> []" by simp
    with Some Inr show ?thesis by (simp add: parsePageString_def assms)
  qed
qed

lemma pieces_ws_left:
  assumes "list_all is_ws w"
  shows "pieces (w @ s) = pieces s"
proof -
  let ?S = "split CHR '','' s"
  from ws_not_sep[OF assms] have n: "CHR ''-'' \<notin> set w" "CHR '','' \<notin> set w" by simp_all
  have "pieces (w @ s) = map trim (split CHR ''-'' (w @ hd ?S))
                           # map (\<lambda>t. map trim (split CHR ''-'' t)) (tl ?S)"
    by (simp add: pieces_def split_append_nosep_left[OF n(2)])
  also have "map trim (split CHR ''-'' (w @ hd ?S)) = map trim (split CHR ''-'' (hd ?S))"
    using assms n(1) by (rule map_trim_split_left)
  also have "map trim (split CHR ''-'' (hd ?S)) # map (\<lambda>t. map trim (split CHR ''-'' t)) (tl ?S)
               = map (\<lambda>t. map trim (split CHR ''-'' t)) (hd ?S # tl ?S)"
    by (simp only: list.map)
  also have "hd ?S # tl ?S = ?S" by (rule list.collapse) simp
  finally show ?thesis by (simp only: pieces_def)
qed

lemma pieces_ws_right:
  assumes "list_all is_ws w"
  shows "pieces (s @ w) = pieces s"
proof -
  let ?S = "split CHR '','' s"
  from ws_not_sep[OF assms] have n: "CHR ''-'' \<notin> set w" "CHR '','' \<notin> set w" by simp_all
  have "pieces (s @ w) = map (\<lambda>t. map trim (split CHR ''-'' t)) (butlast ?S)
                           @ [map trim (split CHR ''-'' (last ?S @ w))]"
    by (simp add: pieces_def split_append_nosep_right[OF n(2)])
  also have "map trim (split CHR ''-'' (last ?S @ w)) = map trim (split CHR ''-'' (last ?S))"
    using assms n(1) by (rule map_trim_split_right)
  also have "map (\<lambda>t. map trim (split CHR ''-'' t)) (butlast ?S)
               @ [map trim (split CHR ''-'' (last ?S))]
             = map (\<lambda>t. map trim (split CHR ''-'' t)) (butlast ?S @ [last ?S])"
    by (simp only: map_append list.map)
  also have "butlast ?S @ [last ?S] = ?S" by (rule append_butlast_last_id) simp
  finally show ?thesis by (simp only: pieces_def)
qed

lemma pieces_comma: "pieces (a @ CHR '','' # b) = pieces a @ pieces b"
  by (simp add: pieces_def split_sep_append)

lemma pieces_middle:
  assumes "CHR '','' \<notin> set m"
  shows "pieces (a @ m @ b)
           = map (\<lambda>t. map trim (split CHR ''-'' t)) (butlast (split CHR '','' a))
             @ map trim (split CHR ''-'' (last (split CHR '','' a) @ m @ hd (split CHR '','' b)))
             # map (\<lambda>t. map trim (split CHR ''-'' t)) (tl (split CHR '','' b))"
  unfolding pieces_def split_append[of _ a "m @ b"] split_append_nosep_left[OF assms]
  by simp

lemma pieces_ws_insert:
  assumes "list_all is_ws w" and "c = CHR '','' \<or> c = CHR ''-''"
  shows "pieces (a @ w @ c # b) = pieces (a @ c # b)"
    and "pieces (a @ c # w @ b) = pieces (a @ c # b)"
proof -
  from ws_not_sep[OF assms(1)] have n: "CHR ''-'' \<notin> set w" "CHR '','' \<notin> set w" by simp_all
  from assms(2) show "pieces (a @ w @ c # b) = pieces (a @ c # b)"
  proof
    assume c: "c = CHR '',''"
    have "pieces ((a @ w) @ CHR '','' # b) = pieces (a @ CHR '','' # b)"
      unfolding pieces_comma by (simp add: pieces_ws_right[OF assms(1)])
    then show ?thesis by (simp add: c)
  next
    assume c: "c = CHR ''-''"
    let ?ta = "last (split CHR '','' a)" and ?tb = "hd (split CHR '','' b)"
    have "map trim (split CHR ''-'' (?ta @ (w @ ''-'') @ ?tb))
            = map trim (split CHR ''-'' ((?ta @ w) @ CHR ''-'' # ?tb))" by simp
    also have "\<dots> = map trim (split CHR ''-'' (?ta @ w)) @ map trim (split CHR ''-'' ?tb)"
      unfolding split_sep_append by simp
    also have "map trim (split CHR ''-'' (?ta @ w)) = map trim (split CHR ''-'' ?ta)"
      using assms(1) n(1) by (rule map_trim_split_right)
    also have "map trim (split CHR ''-'' ?ta) @ map trim (split CHR ''-'' ?tb)
                 = map trim (split CHR ''-'' (?ta @ ''-'' @ ?tb))"
      by (simp add: split_sep_append)
    finally have t: "map trim (split CHR ''-'' (?ta @ (w @ ''-'') @ ?tb))
                       = map trim (split CHR ''-'' (?ta @ ''-'' @ ?tb))" .
    have m1: "CHR '','' \<notin> set (w @ ''-'')" using n(2) by simp
    have m0: "CHR '','' \<notin> set ''-''" by simp
    have "pieces (a @ (w @ ''-'') @ b) = pieces (a @ ''-'' @ b)"
      unfolding pieces_middle[OF m1] pieces_middle[OF m0] t ..
    then show ?thesis by (simp add: c)
  qed
  from assms(2) show "pieces (a @ c # w @ b) = pieces (a @ c # b)"
  proof
    assume c: "c = CHR '',''"
    show ?thesis unfolding c pieces_comma by (simp add: pieces_ws_left[OF assms(1)])
  next
    assume c: "c = CHR ''-''"
    let ?ta = "last (split CHR '','' a)" and ?tb = "hd (split CHR '','' b)"
    have "map trim (split CHR ''-'' (?ta @ (''-'' @ w) @ ?tb))
            = map trim (split CHR ''-'' (?ta @ CHR ''-'' # (w @ ?tb)))" by simp
    also have "\<dots> = map trim (split CHR ''-'' ?ta) @ map trim (split CHR ''-'' (w @ ?tb))"
      unfolding split_sep_append by simp
    also have "map trim (split CHR ''-'' (w @ ?tb)) = map trim (split CHR ''-'' ?tb)"
      using assms(1) n(1) by (rule map_trim_split_left)
    also have "map trim (split CHR ''-'' ?ta) @ map trim (split CHR ''-'' ?tb)
                 = map trim (split CHR ''-'' (?ta @ ''-'' @ ?tb))"
      by (simp add: split_sep_append)
    finally have t: "map trim (split CHR ''-'' (?ta @ (''-'' @ w) @ ?tb))
                       = map trim (split CHR ''-'' (?ta @ ''-'' @ ?tb))" .
    have m1: "CHR '','' \<notin> set (''-'' @ w)" using n(2) by simp
    have m0: "CHR '','' \<notin> set ''-''" by simp
    have "pieces (a @ (''-'' @ w) @ b) = pieces (a @ ''-'' @ b)"
      unfolding pieces_middle[OF m1] pieces_middle[OF m0] t ..
    then show ?thesis by (simp add: c)
  qed
qed

section \<open>Messages and strings that are no numbers\<close>

lemma token_error_quoted: "token_error maxPage part = quoted_token_message maxPage part"
  by (simp add: token_error_def quoted_token_message_def range_error_def page_error_def)

lemma digit_numeric: "is_digit c \<Longrightarrow> numeric_char c"
  by (simp add: numeric_char_def)

lemma ws_numeric: "is_ws c \<Longrightarrow> numeric_char c"
  by (simp add: numeric_char_def)

lemma numeric_literals:
  "numeric_char CHR ''+''" "numeric_char CHR ''-''" "numeric_char CHR ''.''"
  "numeric_char CHR ''e''" "numeric_char CHR ''E''" "numeric_char CHR ''0''"
  "numeric_char CHR ''x''" "numeric_char CHR ''X''" "numeric_char CHR ''o''"
  "numeric_char CHR ''O''" "numeric_char CHR ''b''" "numeric_char CHR ''B''"
  by (simp_all add: numeric_char_def is_digit_def is_ws_def)

lemma numeric_Infinity: "c \<in> set ''Infinity'' \<Longrightarrow> numeric_char c"
  by (auto simp: numeric_char_def is_digit_def is_ws_def)

lemma digit_in_numeric: "is_digit_in b c \<Longrightarrow> numeric_char c"
  by (auto simp: is_digit_in_def digit_val_def numeric_char_def is_digit_def Let_def
      split: option.splits if_splits)

lemma exponent_part_foreign:
  assumes "c \<in> set s" and "\<not> numeric_char c"
  shows "exponent_part s = None"
proof (cases s)
  case Nil
  with assms show ?thesis by simp
next
  case (Cons e0 rest)
  show ?thesis
  proof (cases "e0 = CHR ''e'' \<or> e0 = CHR ''E''")
    case False
    with Cons show ?thesis by (simp add: exponent_part_def)
  next
    case True
    with assms numeric_literals have "c \<noteq> e0" by auto
    with assms(1) Cons have cr: "c \<in> set rest" by simp
    have nd: "\<not> is_digit c" using assms(2) digit_numeric by blast
    have ns: "c \<noteq> CHR ''+''" "c \<noteq> CHR ''-''" using assms(2) numeric_literals by auto
    obtain d r' where rest: "rest = d # r'" using cr by (cases rest) auto
    show ?thesis
    proof (cases "d = CHR ''+'' \<or> d = CHR ''-''")
      case True
      with cr rest ns have "c \<in> set r'" by auto
      with nd have "\<not> list_all is_digit r'" by (auto simp: list_all_iff)
      with True \<open>e0 = CHR ''e'' \<or> e0 = CHR ''E''\<close> show ?thesis
        by (auto simp: exponent_part_def Cons rest)
    next
      case False
      from cr nd have "\<not> list_all is_digit rest" by (auto simp: list_all_iff)
      with False \<open>e0 = CHR ''e'' \<or> e0 = CHR ''E''\<close> show ?thesis
        by (auto simp: exponent_part_def Cons rest)
    qed
  qed
qed

lemma unsigned_foreign:
  assumes "c \<in> set r" and "\<not> numeric_char c"
  shows "str_unsigned_decimal r = None"
proof -
  have inf: "r \<noteq> ''Infinity''" using assms numeric_Infinity by blast
  have nd: "\<not> is_digit c" using assms(2) digit_numeric by blast
  have np: "c \<noteq> CHR ''.''" using assms(2) numeric_literals by auto
  let ?r1 = "dropWhile is_digit r"
  have "r = takeWhile is_digit r @ ?r1" by simp
  then have "c \<in> set (takeWhile is_digit r) \<or> c \<in> set ?r1"
    using assms(1) by (metis Un_iff set_append)
  with nd have c1: "c \<in> set ?r1" by (auto dest: set_takeWhileD)
  then obtain c1 r' where r1: "?r1 = c1 # r'" by (cases ?r1) auto
  have "exponent_part (snd (case ?r1 of [] \<Rightarrow> ([], [])
                           | c # r \<Rightarrow> if c = CHR ''.''
                                      then (takeWhile is_digit r, dropWhile is_digit r)
                                      else ([], ?r1))) = None"
  proof (cases "c1 = CHR ''.''")
    case True
    with c1 r1 np have "c \<in> set r'" by auto
    moreover have "r' = takeWhile is_digit r' @ dropWhile is_digit r'" by simp
    ultimately have "c \<in> set (takeWhile is_digit r') \<or> c \<in> set (dropWhile is_digit r')"
      by (metis Un_iff set_append)
    with nd have "c \<in> set (dropWhile is_digit r')" by (auto dest: set_takeWhileD)
    from exponent_part_foreign[OF this assms(2)] True show ?thesis by (simp add: r1)
  next
    case False
    from exponent_part_foreign[OF c1 assms(2)] False show ?thesis by (simp add: r1)
  qed
  then show ?thesis using inf
    by (simp add: str_unsigned_decimal_def Let_def split_beta)
qed

lemma non_decimal_foreign:
  assumes "c \<in> set t" and "\<not> numeric_char c"
  shows "non_decimal t = None"
proof (cases t)
  case Nil
  then show ?thesis by (simp add: non_decimal_def)
next
  case (Cons z r)
  show ?thesis
  proof (cases r)
    case Nil
    with Cons show ?thesis by (simp add: non_decimal_def)
  next
    case (Cons x ds)
    with \<open>t = z # r\<close> assms(1) consider "c = z" | "c = x" | "c \<in> set ds" by auto
    then show ?thesis
    proof cases
      case 1
      with assms(2) numeric_literals have "z \<noteq> CHR ''0''" by auto
      then show ?thesis by (simp add: non_decimal_def \<open>t = z # r\<close> Cons Let_def)
    next
      case 2
      with assms(2) numeric_literals have "x \<noteq> CHR ''x''" "x \<noteq> CHR ''X''" "x \<noteq> CHR ''o''"
        "x \<noteq> CHR ''O''" "x \<noteq> CHR ''b''" "x \<noteq> CHR ''B''" by auto
      then show ?thesis by (simp add: non_decimal_def \<open>t = z # r\<close> Cons Let_def)
    next
      case 3
      with assms(2) digit_in_numeric have "\<not> list_all (is_digit_in b) ds" for b
        by (auto simp: list_all_iff)
      then show ?thesis by (simp add: non_decimal_def \<open>t = z # r\<close> Cons Let_def)
    qed
  qed
qed

lemma Number_foreign:
  assumes "c \<in> set s" and "\<not> numeric_char c"
  shows "Number s = NaN"
proof -
  obtain l r where lr: "list_all is_ws l" "list_all is_ws r" and s: "s = l @ trim s @ r"
    by (rule trim_decomp)
  have nw: "\<not> is_ws c" using assms(2) ws_numeric by blast
  from assms(1) have "c \<in> set (l @ trim s @ r)" using s by simp
  with lr nw have ct: "c \<in> set (trim s)" by (auto simp: list_all_iff)
  then obtain c0 r0 where t: "trim s = c0 # r0" by (cases "trim s") auto
  have nd: "non_decimal (c0 # r0) = None"
    using ct assms(2) unfolding t by (rule non_decimal_foreign)
  have u: "str_unsigned_decimal (c0 # r0) = None"
    using ct assms(2) unfolding t by (rule unsigned_foreign)
  have "str_numeric_literal (c0 # r0) = None"
  proof (cases "c0 = CHR ''+'' \<or> c0 = CHR ''-''")
    case True
    with assms(2) numeric_literals have "c \<noteq> c0" by auto
    with ct t have "c \<in> set r0" by simp
    from unsigned_foreign[OF this assms(2)] True show ?thesis
      by (auto simp: str_numeric_literal_def nd)
  next
    case False
    with u show ?thesis by (simp add: str_numeric_literal_def nd)
  qed
  then show ?thesis by (simp add: Number_def t)
qed

section \<open>Empty tokens and empty input\<close>

text \<open>
  C5 (empty tokens are ignored when a valid token is present; \<open>"1,,2"\<close> returns
  \<open>[0,1]\<close>): the code does not do so. With two pages, the empty token between the
  commas is read as the number 0 and rejected as an invalid page, although the tokens
  \<open>1\<close> and \<open>2\<close> are valid.
\<close>

theorem C5_empty_token_rejected:
  "parsePageString ''1,,2'' 2 = Some (Inl (page_error [] 2))"
  by (simp add: parse_eval number_eval)

text \<open>
  C6 (the empty input raises "No pages selected. Please enter page numbers to
  extract."; a non-empty input with an empty result set raises "Please enter valid page
  numbers."): the code does not do so. For every page count the empty input is one empty
  token, read as the number 0, and the parser raises the invalid-page message for it.
  The two messages of the claim stand behind the loop and are never raised, for any
  input: the loop throws or leaves a non-empty set.
\<close>

theorem C6_empty_input_invalid_page:
  "parsePageString [] maxPage = Some (Inl (page_error [] maxPage))
   \<and> (\<forall>input.
        parsePageString input maxPage
          \<noteq> Some (Inl ''No pages selected. Please enter page numbers to extract.'')
        \<and> parsePageString input maxPage \<noteq> Some (Inl ''Please enter valid page numbers.''))"
proof -
  have "parsePageString [] maxPage = Some (Inl (page_error [] maxPage))"
    by (simp add: parse_eval number_eval)
  moreover have "parsePageString input maxPage
          \<noteq> Some (Inl ''No pages selected. Please enter page numbers to extract.'')" for input
  proof
    assume "parsePageString input maxPage
          = Some (Inl ''No pages selected. Please enter page numbers to extract.'')"
    from parse_error_token[OF this] obtain part
      where "''No pages selected. Please enter page numbers to extract.''
               = token_error maxPage part" by blast
    with token_message_neq(1)[of maxPage part] show False by simp
  qed
  moreover have "parsePageString input maxPage \<noteq> Some (Inl ''Please enter valid page numbers.'')"
    for input
  proof
    assume "parsePageString input maxPage = Some (Inl ''Please enter valid page numbers.'')"
    from parse_error_token[OF this] obtain part
      where "''Please enter valid page numbers.'' = token_error maxPage part" by blast
    with token_message_neq(2)[of maxPage part] show False by simp
  qed
  ultimately show ?thesis by blast
qed

section \<open>Rejected tokens\<close>

lemmas message_eval = page_error_def range_error_def dec.simps char_of_def bit_Suc_0_iff

lemma foreign_token_invalid:
  assumes "\<exists>p\<in>set (take 2 (split CHR ''-'' part)). \<exists>c\<in>set p. \<not> numeric_char c"
  shows "spec_token_invalid maxPage part"
proof (cases "CHR ''-'' \<in> set part")
  case True
  from length_split_ge2[OF this] obtain s e r where sp: "split CHR ''-'' part = s # e # r"
    by blast
  with assms have "(\<exists>c\<in>set s. \<not> numeric_char c) \<or> (\<exists>c\<in>set e. \<not> numeric_char c)" by auto
  then have "Number s = NaN \<or> Number e = NaN" using Number_foreign by blast
  with True sp show ?thesis by (auto simp: spec_token_invalid_def isNaN_def)
next
  case False
  with assms have "\<exists>c\<in>set part. \<not> numeric_char c" by (simp add: split_notin)
  then have "Number part = NaN" using Number_foreign by blast
  with False show ?thesis by (simp add: spec_token_invalid_def isNaN_def)
qed

lemma for_body_rejects:
  "for_body maxPage part pages = Some (Inl e)
     \<longleftrightarrow> spec_token_invalid maxPage part \<and> e = quoted_token_message maxPage part"
  unfolding token_error_quoted[symmetric] by (rule for_body_error_iff)

lemma parse_single_token:
  assumes "CHR '','' \<notin> set input"
  shows "parsePageString input maxPage = Some (Inl e)
           \<longleftrightarrow> spec_token_invalid maxPage (trim input)
               \<and> e = quoted_token_message maxPage (trim input)"
proof
  assume "parsePageString input maxPage = Some (Inl e)"
  from parse_error_token[OF this] assms
  show "spec_token_invalid maxPage (trim input) \<and> e = quoted_token_message maxPage (trim input)"
    by (simp add: split_notin token_error_quoted)
next
  assume "spec_token_invalid maxPage (trim input) \<and> e = quoted_token_message maxPage (trim input)"
  then have "for_body maxPage (trim input) [] = Some (Inl e)" by (simp add: for_body_rejects)
  then show "parsePageString input maxPage = Some (Inl e)"
    using assms by (simp add: parsePageString_def split_notin)
qed

text \<open>
  C2 as stated gives the two messages as \<open>Invalid page: <token>. Pages must be between 1
  and <maxPage>.\<close> and \<open>Invalid range: <token>. Pages must be between 1 and
  <maxPage>.\<close>. The code writes the token between double quotes: with ten pages the
  tokens \<open>0\<close> and \<open>5-3\<close> are rejected with messages that quote them, which are not
  the messages of the statement.
\<close>

theorem C2_message_counterexample:
  "parsePageString ''0'' 10
     = Some (Inl (''Invalid page: '' @ [CHR 0x22] @ ''0'' @ [CHR 0x22]
                    @ ''. Pages must be between 1 and 10.''))
   \<and> spec_token_message 10 ''0'' = ''Invalid page: 0. Pages must be between 1 and 10.''
   \<and> parsePageString ''0'' 10 \<noteq> Some (Inl (spec_token_message 10 ''0''))
   \<and> parsePageString ''5-3'' 10
       = Some (Inl (''Invalid range: '' @ [CHR 0x22] @ ''5-3'' @ [CHR 0x22]
                      @ ''. Pages must be between 1 and 10.''))
   \<and> spec_token_message 10 ''5-3'' = ''Invalid range: 5-3. Pages must be between 1 and 10.''
   \<and> parsePageString ''5-3'' 10 \<noteq> Some (Inl (spec_token_message 10 ''5-3''))"
  by (simp add: parse_eval number_eval message_eval spec_token_message_def)

text \<open>
  C2, amended: the loop body throws on a token exactly when the token fails the numeric
  and bounds checks of the specification, and the message is then the invalid-range
  message (token with a hyphen) or the invalid-page message (any other token) with the
  token between double quotes and the bounds 1 and \<open>maxPage\<close>. For an input that is a
  single token the parser as a whole does the same. Every message the parser throws is
  the message of a token of the input that fails the checks, and when the parser returns
  no token of the input fails them. A token whose page, or whose range start or end, has
  a character that no numeric string contains is rejected. With ten pages, \<open>"0"\<close>,
  \<open>"11"\<close>, \<open>"abc"\<close>, \<open>"5-3"\<close>, \<open>"0-2"\<close>, \<open>"1-11"\<close> and \<open>"1-x"\<close> are rejected with
  the messages written out below, \<open>"1-1"\<close> and \<open>"10-10"\<close> are accepted.
\<close>

theorem C2_token_rejection:
  "(for_body maxPage part pages = Some (Inl e)
      \<longleftrightarrow> spec_token_invalid maxPage part \<and> e = quoted_token_message maxPage part)
   \<and> (CHR '','' \<notin> set input \<longrightarrow>
        (parsePageString input maxPage = Some (Inl e)
           \<longleftrightarrow> spec_token_invalid maxPage (trim input)
               \<and> e = quoted_token_message maxPage (trim input)))
   \<and> (parsePageString input maxPage = Some (Inl e)
        \<longrightarrow> (\<exists>t\<in>set (map trim (split CHR '','' input)).
               spec_token_invalid maxPage t \<and> e = quoted_token_message maxPage t))
   \<and> (parsePageString input maxPage = Some (Inr xs)
        \<longrightarrow> (\<forall>t\<in>set (map trim (split CHR '','' input)). \<not> spec_token_invalid maxPage t))
   \<and> ((\<exists>p\<in>set (take 2 (split CHR ''-'' part)). \<exists>c\<in>set p. \<not> numeric_char c)
        \<longrightarrow> for_body maxPage part pages = Some (Inl (quoted_token_message maxPage part)))
   \<and> parsePageString ''0'' 10
       = Some (Inl (''Invalid page: '' @ [CHR 0x22] @ ''0'' @ [CHR 0x22]
                      @ ''. Pages must be between 1 and 10.''))
   \<and> parsePageString ''11'' 10
       = Some (Inl (''Invalid page: '' @ [CHR 0x22] @ ''11'' @ [CHR 0x22]
                      @ ''. Pages must be between 1 and 10.''))
   \<and> parsePageString ''abc'' 10
       = Some (Inl (''Invalid page: '' @ [CHR 0x22] @ ''abc'' @ [CHR 0x22]
                      @ ''. Pages must be between 1 and 10.''))
   \<and> parsePageString ''5-3'' 10
       = Some (Inl (''Invalid range: '' @ [CHR 0x22] @ ''5-3'' @ [CHR 0x22]
                      @ ''. Pages must be between 1 and 10.''))
   \<and> parsePageString ''0-2'' 10
       = Some (Inl (''Invalid range: '' @ [CHR 0x22] @ ''0-2'' @ [CHR 0x22]
                      @ ''. Pages must be between 1 and 10.''))
   \<and> parsePageString ''1-11'' 10
       = Some (Inl (''Invalid range: '' @ [CHR 0x22] @ ''1-11'' @ [CHR 0x22]
                      @ ''. Pages must be between 1 and 10.''))
   \<and> parsePageString ''1-x'' 10
       = Some (Inl (''Invalid range: '' @ [CHR 0x22] @ ''1-x'' @ [CHR 0x22]
                      @ ''. Pages must be between 1 and 10.''))
   \<and> parsePageString ''1-1'' 10 = Some (Inr [Fin 0])
   \<and> parsePageString ''10-10'' 10 = Some (Inr [Fin 9])"
proof -
  have A: "for_body maxPage part pages = Some (Inl e)
      \<longleftrightarrow> spec_token_invalid maxPage part \<and> e = quoted_token_message maxPage part"
    by (rule for_body_rejects)
  have A': "CHR '','' \<notin> set input \<longrightarrow>
        (parsePageString input maxPage = Some (Inl e)
           \<longleftrightarrow> spec_token_invalid maxPage (trim input)
               \<and> e = quoted_token_message maxPage (trim input))"
    using parse_single_token by blast
  have B: "parsePageString input maxPage = Some (Inl e)
        \<longrightarrow> (\<exists>t\<in>set (map trim (split CHR '','' input)).
               spec_token_invalid maxPage t \<and> e = quoted_token_message maxPage t)"
    using parse_error_token unfolding token_error_quoted by blast
  have C: "\<not> spec_token_invalid maxPage t"
    if ok: "parsePageString input maxPage = Some (Inr xs)"
      and t: "t \<in> set (map trim (split CHR '','' input))" for t
  proof -
    from parse_success[OF ok] obtain ps where
      "for_parts maxPage (map trim (split CHR '','' input)) [] = Some (Inr ps)" by blast
    from for_parts_run[OF this] t obtain ps0 where "for_body maxPage t [] = Some (Inr ps0)"
      by blast
    then show ?thesis using for_body_error_iff[of maxPage t "[]"] by auto
  qed
  have E: "(\<exists>p\<in>set (take 2 (split CHR ''-'' part)). \<exists>c\<in>set p. \<not> numeric_char c)
        \<longrightarrow> for_body maxPage part pages = Some (Inl (quoted_token_message maxPage part))"
    using foreign_token_invalid for_body_rejects by blast
  have D1: "parsePageString ''0'' 10
       = Some (Inl (''Invalid page: '' @ [CHR 0x22] @ ''0'' @ [CHR 0x22]
                      @ ''. Pages must be between 1 and 10.''))"
    by (simp add: parse_eval number_eval message_eval)
  have D2: "parsePageString ''11'' 10
       = Some (Inl (''Invalid page: '' @ [CHR 0x22] @ ''11'' @ [CHR 0x22]
                      @ ''. Pages must be between 1 and 10.''))"
    by (simp add: parse_eval number_eval message_eval)
  have D3: "parsePageString ''abc'' 10
       = Some (Inl (''Invalid page: '' @ [CHR 0x22] @ ''abc'' @ [CHR 0x22]
                      @ ''. Pages must be between 1 and 10.''))"
    by (simp add: parse_eval number_eval message_eval)
  have D4: "parsePageString ''5-3'' 10
       = Some (Inl (''Invalid range: '' @ [CHR 0x22] @ ''5-3'' @ [CHR 0x22]
                      @ ''. Pages must be between 1 and 10.''))"
    by (simp add: parse_eval number_eval message_eval)
  have D5: "parsePageString ''0-2'' 10
       = Some (Inl (''Invalid range: '' @ [CHR 0x22] @ ''0-2'' @ [CHR 0x22]
                      @ ''. Pages must be between 1 and 10.''))"
    by (simp add: parse_eval number_eval message_eval)
  have D6: "parsePageString ''1-11'' 10
       = Some (Inl (''Invalid range: '' @ [CHR 0x22] @ ''1-11'' @ [CHR 0x22]
                      @ ''. Pages must be between 1 and 10.''))"
    by (simp add: parse_eval number_eval message_eval)
  have D7: "parsePageString ''1-x'' 10
       = Some (Inl (''Invalid range: '' @ [CHR 0x22] @ ''1-x'' @ [CHR 0x22]
                      @ ''. Pages must be between 1 and 10.''))"
    by (simp add: parse_eval number_eval message_eval)
  have D8: "parsePageString ''1-1'' 10 = Some (Inr [Fin 0])"
    by (simp add: parse_eval number_eval)
  have D9: "parsePageString ''10-10'' 10 = Some (Inr [Fin 9])"
    by (simp add: parse_eval number_eval)
  show ?thesis
    by (intro conjI A A' B E D1 D2 D3 D4 D5 D6 D7 D8 D9) (use C in blast)
qed

theorem C2_token_rejection_witness:
  "spec_token_invalid 10 ''5-3''
   \<and> for_body 10 ''5-3'' [] = Some (Inl (quoted_token_message 10 ''5-3''))
   \<and> quoted_token_message 10 ''5-3''
       = ''Invalid range: '' @ [CHR 0x22] @ ''5-3'' @ [CHR 0x22]
           @ ''. Pages must be between 1 and 10.''
   \<and> parsePageString '' 12 '' 10 = Some (Inl (quoted_token_message 10 ''12''))
   \<and> for_body 10 ''4-q'' [] = Some (Inl (quoted_token_message 10 ''4-q''))
   \<and> \<not> spec_token_invalid 10 ''7''
   \<and> parsePageString ''7'' 10 = Some (Inr [Fin 6])"
proof -
  have i: "spec_token_invalid 10 ''5-3''"
    by (simp add: spec_token_invalid_def number_eval isNaN_def js_gt_def)
  have i2: "CHR '','' \<notin> set '' 12 ''" "trim '' 12 '' = ''12''" "spec_token_invalid 10 ''12''"
    by (simp_all add: spec_token_invalid_def number_eval isNaN_def js_gt_def)
  have q: "quoted_token_message 10 ''5-3''
       = ''Invalid range: '' @ [CHR 0x22] @ ''5-3'' @ [CHR 0x22]
           @ ''. Pages must be between 1 and 10.''"
    by (simp add: quoted_token_message_def dec.simps char_of_def bit_Suc_0_iff)
  have f: "\<exists>p\<in>set (take 2 (split CHR ''-'' ''4-q'')). \<exists>c\<in>set p. \<not> numeric_char c"
    by (simp add: numeric_char_def is_digit_def is_ws_def)
  have p: "parsePageString ''7'' 10 = Some (Inr [Fin 6])"
    by (simp add: parse_eval number_eval)
  have s: "set (map trim (split CHR '','' ''7'')) = {''7''}"
    by (simp add: trim_def is_ws_def)
  from C2_token_rejection[of 10 "''5-3''" "[]" "quoted_token_message 10 ''5-3''" "''7''" "[Fin 6]"]
    C2_token_rejection[of 10 "''4-q''" "[]" "quoted_token_message 10 ''12''" "'' 12 ''" "[]"]
  show ?thesis using i i2 q f p s by simp
qed

section \<open>Ascending, duplicate-free results\<close>

lemma parse_success_pages:
  assumes "parsePageString input maxPage = Some (Inr xs)"
  shows "sorted_wrt js_lt xs
         \<and> set xs = (\<Union>t\<in>set (map trim (split CHR '','' input)). token_pages maxPage t)"
proof -
  from parse_success[OF assms] obtain ps where
    ps: "for_parts maxPage (map trim (split CHR '','' input)) [] = Some (Inr ps)"
    and xs: "xs = sort_cmp ps" by blast
  from for_parts_run[OF ps] have s: "set ps = (\<Union>t\<in>set (map trim (split CHR '','' input)). token_pages maxPage t)"
    and d: "distinct ps" by simp_all
  from s have "\<forall>x\<in>set ps. rounded x" using token_pages_rounded by auto
  from sorted_sort_cmp[OF d this] s show ?thesis by (simp add: xs)
qed

lemma parse_from_tokens:
  assumes "parsePageString input maxPage = Some (Inr xs)"
    and "set (map trim (split CHR '','' input')) = set (map trim (split CHR '','' input))"
  shows "parsePageString input' maxPage = Some (Inr xs)"
proof -
  let ?ts = "map trim (split CHR '','' input)" and ?ts' = "map trim (split CHR '','' input')"
  from parse_success[OF assms(1)] obtain ps where
    ps: "for_parts maxPage ?ts [] = Some (Inr ps)" by blast
  from for_parts_run[OF ps] have "\<forall>part\<in>set ?ts'. \<exists>ps0. for_body maxPage part [] = Some (Inr ps0)"
    unfolding assms(2) by blast
  from for_parts_success[OF this] obtain ps' where
    ps': "for_parts maxPage ?ts' [] = Some (Inr ps')" by blast
  have "?ts' \<noteq> []" by simp
  with for_parts_run[OF ps'] have ne: "ps' \<noteq> []" by blast
  with ps' have r: "parsePageString input' maxPage = Some (Inr (sort_cmp ps'))"
    by (simp add: parsePageString_def)
  have u: "(\<Union>t\<in>set ?ts'. token_pages maxPage t) = (\<Union>t\<in>set ?ts. token_pages maxPage t)"
    unfolding assms(2) ..
  from parse_success_pages[OF r] have 1: "sorted_wrt js_lt (sort_cmp ps')"
    "set (sort_cmp ps') = (\<Union>t\<in>set ?ts'. token_pages maxPage t)" by blast+
  from parse_success_pages[OF assms(1)] have 2: "sorted_wrt js_lt xs"
    "set xs = (\<Union>t\<in>set ?ts. token_pages maxPage t)" by blast+
  have "set (sort_cmp ps') = set xs" unfolding 1(2) 2(2) u ..
  with 1(1) 2(1) have "sort_cmp ps' = xs" by (rule sorted_wrt_js_lt_unique)
  with r show ?thesis by simp
qed

text \<open>
  C3: when the parser returns, the sequence is strictly ascending, hence free of
  duplicates, and holds exactly the indices its tokens contribute. It is therefore the
  same for an input with the same tokens in another order or repeated, and for any other
  accepted input whose tokens contribute the same indices, however they overlap. With at
  least three pages \<open>"3,1,2"\<close> and \<open>"1,2,3"\<close> both yield 0, 1, 2, and with at least one
  page \<open>"1,1,1-1"\<close> yields 0.
\<close>

theorem C3_ascending_order_independent:
  "(parsePageString input maxPage = Some (Inr xs) \<longrightarrow>
      sorted_wrt js_lt xs \<and> distinct xs
      \<and> set xs = (\<Union>t\<in>set (map trim (split CHR '','' input)). token_pages maxPage t))
   \<and> (parsePageString input maxPage = Some (Inr xs) \<longrightarrow>
        set (map trim (split CHR '','' input')) = set (map trim (split CHR '','' input)) \<longrightarrow>
        parsePageString input' maxPage = Some (Inr xs))
   \<and> (parsePageString input maxPage = Some (Inr xs) \<longrightarrow>
        parsePageString input' maxPage = Some (Inr ys) \<longrightarrow>
        (\<Union>t\<in>set (map trim (split CHR '','' input')). token_pages maxPage t)
          = (\<Union>t\<in>set (map trim (split CHR '','' input)). token_pages maxPage t) \<longrightarrow>
        ys = xs)
   \<and> (3 \<le> maxPage \<longrightarrow>
        parsePageString ''3,1,2'' maxPage = Some (Inr [Fin 0, Fin 1, Fin 2])
        \<and> parsePageString ''1,2,3'' maxPage = Some (Inr [Fin 0, Fin 1, Fin 2]))
   \<and> (1 \<le> maxPage \<longrightarrow> parsePageString ''1,1,1-1'' maxPage = Some (Inr [Fin 0]))"
proof -
  have A: "sorted_wrt js_lt xs \<and> distinct xs
      \<and> set xs = (\<Union>t\<in>set (map trim (split CHR '','' input)). token_pages maxPage t)"
    if "parsePageString input maxPage = Some (Inr xs)"
    using parse_success_pages[OF that] sorted_wrt_js_lt_distinct by blast
  have B: "parsePageString input' maxPage = Some (Inr xs)"
    if "parsePageString input maxPage = Some (Inr xs)"
      "set (map trim (split CHR '','' input')) = set (map trim (split CHR '','' input))"
    using that by (rule parse_from_tokens)
  have C: "ys = xs"
    if "parsePageString input maxPage = Some (Inr xs)"
      "parsePageString input' maxPage = Some (Inr ys)"
      "(\<Union>t\<in>set (map trim (split CHR '','' input')). token_pages maxPage t)
          = (\<Union>t\<in>set (map trim (split CHR '','' input)). token_pages maxPage t)"
  proof -
    from parse_success_pages[OF that(1)] have 1: "sorted_wrt js_lt xs"
      "set xs = (\<Union>t\<in>set (map trim (split CHR '','' input)). token_pages maxPage t)"
      by blast+
    from parse_success_pages[OF that(2)] have 2: "sorted_wrt js_lt ys"
      "set ys = (\<Union>t\<in>set (map trim (split CHR '','' input')). token_pages maxPage t)"
      by blast+
    have "set ys = set xs" unfolding 1(2) 2(2) that(3) ..
    with 2(1) 1(1) show ?thesis by (rule sorted_wrt_js_lt_unique)
  qed
  have D: "parsePageString ''3,1,2'' maxPage = Some (Inr [Fin 0, Fin 1, Fin 2])
        \<and> parsePageString ''1,2,3'' maxPage = Some (Inr [Fin 0, Fin 1, Fin 2])"
    if "3 \<le> maxPage"
  proof -
    have "(3::rat) \<le> of_nat maxPage" using that by (metis of_nat_le_iff of_nat_numeral)
    then have "\<not> (of_nat maxPage :: rat) < 3" "\<not> (of_nat maxPage :: rat) < 2"
      "\<not> (of_nat maxPage :: rat) < 1" by simp_all
    then show ?thesis by (simp add: parse_eval number_eval)
  qed
  have E: "parsePageString ''1,1,1-1'' maxPage = Some (Inr [Fin 0])" if "1 \<le> maxPage"
  proof -
    have "(1::rat) \<le> of_nat maxPage" using that by simp
    then have "\<not> (of_nat maxPage :: rat) < 1" by simp
    then show ?thesis by (simp add: parse_eval number_eval)
  qed
  from A B C D E show ?thesis by blast
qed

theorem C3_ascending_order_independent_witness:
  "parsePageString ''3,1,2'' 3 = Some (Inr [Fin 0, Fin 1, Fin 2])
   \<and> sorted_wrt js_lt [Fin 0, Fin 1, Fin 2]
   \<and> parsePageString ''2,3,1,3'' 3 = Some (Inr [Fin 0, Fin 1, Fin 2])"
proof -
  have p: "parsePageString ''3,1,2'' 3 = Some (Inr [Fin 0, Fin 1, Fin 2])"
    by (simp add: parse_eval number_eval)
  have s: "set (map trim (split CHR '','' ''2,3,1,3'')) = set (map trim (split CHR '','' ''3,1,2''))"
    by (simp add: trim_def is_ws_def insert_commute)
  from C3_ascending_order_independent[of "''3,1,2''" 3 "[Fin 0, Fin 1, Fin 2]" "''2,3,1,3''"]
    p s show ?thesis by simp
qed

section \<open>The indices are within the document\<close>

lemma half_not_int: "\<not> is_int (Fin (1 / 2))"
proof -
  have "(1 / 2 :: rat) \<notin> \<int>"
  proof
    assume "(1 / 2 :: rat) \<in> \<int>"
    then obtain n :: int where "(1 / 2 :: rat) = of_int n" by (auto elim: Ints_cases)
    then have "(of_int (2 * n) :: rat) = of_int 1" by simp
    then have "2 * n = 1" by (simp only: of_int_eq_iff)
    then show False by presburger
  qed
  then show ?thesis by (simp add: is_int_Fin del: is_int.simps)
qed

lemma parse_one_and_a_half: "parsePageString ''1.5'' 2 = Some (Inr [Fin (1 / 2)])"
proof -
  have "dbl_round (3 / 2) = Fin (3 / 2)"
    by (rule dbl_round_exact[of _ 3 "- 1"]) (simp_all add: power_int_minus)
  moreover have "dbl_round (1 / 2) = Fin (1 / 2)"
    by (rule dbl_round_exact[of _ 1 "- 1"]) (simp_all add: power_int_minus)
  ultimately show ?thesis by (simp add: parse_eval number_eval power_int_minus)
qed

text \<open>
  C4 as stated (every element of a result is an integer index) does not hold: tokens are
  converted with \<open>Number\<close>, which accepts fractions, and with two pages the input
  \<open>"1.5"\<close> returns the single element 0.5.
\<close>

theorem C4_fraction_counterexample:
  "parsePageString ''1.5'' 2 = Some (Inr [Fin (1 / 2)]) \<and> \<not> is_int (Fin (1 / 2))"
  using parse_one_and_a_half half_not_int by (rule conjI)

text \<open>
  C4, amended: for a page count that is a safe integer, every element of a returned
  sequence is a finite number \<open>x\<close> with \<open>0 \<le> x < maxPage\<close>; the elements are integers
  when the number each token starts with (its page, or the start of its range) is an
  integer.
\<close>

theorem C4_indices_in_range:
  assumes "maxPage \<le> MAX_SAFE_INTEGER" and "parsePageString input maxPage = Some (Inr xs)"
  shows "(\<forall>x\<in>set xs. \<exists>r. x = Fin r \<and> 0 \<le> r \<and> r < of_nat maxPage)
         \<and> ((\<forall>t\<in>set (map trim (split CHR '','' input)). is_int (token_start t))
              \<longrightarrow> (\<forall>x\<in>set xs. is_int x))"
proof -
  from parse_success[OF assms(2)] obtain ps where
    ps: "for_parts maxPage (map trim (split CHR '','' input)) [] = Some (Inr ps)"
    and xs: "xs = sort_cmp ps" by blast
  have A: "\<forall>x\<in>set ps. \<exists>r. x = Fin r \<and> 0 \<le> r \<and> r < of_nat maxPage \<and> (False \<longrightarrow> r \<in> \<int>)"
    by (rule for_parts_bounds[OF assms(1) ps]) simp_all
  have B: "\<forall>x\<in>set ps. is_int x"
    if "\<forall>t\<in>set (map trim (split CHR '','' input)). is_int (token_start t)"
  proof -
    have "\<forall>x\<in>set ps. \<exists>r. x = Fin r \<and> 0 \<le> r \<and> r < of_nat maxPage \<and> (True \<longrightarrow> r \<in> \<int>)"
      by (rule for_parts_bounds[OF assms(1) ps]) (use that in simp_all)
    then show ?thesis by (auto simp: is_int_Fin)
  qed
  from A B show ?thesis unfolding xs by auto
qed

theorem C4_indices_in_range_witness:
  "parsePageString ''1.5'' 2 = Some (Inr [Fin (1 / 2)])
   \<and> (\<exists>r. Fin (1 / 2) = Fin r \<and> 0 \<le> r \<and> r < 2)
   \<and> parsePageString ''2-3'' 3 = Some (Inr [Fin 1, Fin 2])
   \<and> is_int (Fin 1) \<and> is_int (Fin 2)"
proof -
  have p2: "parsePageString ''2-3'' 3 = Some (Inr [Fin 1, Fin 2])"
    by (simp add: parse_eval number_eval)
  have s: "(2::nat) \<le> MAX_SAFE_INTEGER" "(3::nat) \<le> MAX_SAFE_INTEGER"
    by (simp_all add: MAX_SAFE_INTEGER_def)
  have t: "\<forall>t\<in>set (map trim (split CHR '','' ''2-3'')). is_int (token_start t)"
    by (simp add: token_start_def number_eval)
  from C4_indices_in_range[OF s(1) parse_one_and_a_half]
    C4_indices_in_range[OF s(2) p2] t parse_one_and_a_half p2
  show ?thesis by simp
qed

section \<open>Valid ranges\<close>

lemma sorted_Fin_upt: "sorted_wrt js_lt (map (\<lambda>n. Fin (of_nat n)) [m..<n])"
  by (simp add: sorted_wrt_map sorted_wrt_upt[where ?m = m and ?n = n, simplified] sorted_wrt_iff_nth_less)

text \<open>
  C1: for integers \<open>1 \<le> a \<le> b \<le> maxPage\<close>, with \<open>maxPage\<close> a safe integer, the
  parser returns on the token \<open>a-b\<close> (both written in decimal) exactly the indices
  \<open>a-1, ..., b-1\<close> in ascending order; inside a longer input the token adds exactly
  these indices to the set built so far.
\<close>

theorem C1_valid_range:
  assumes "1 \<le> a" and "a \<le> b" and "b \<le> maxPage" and "maxPage \<le> MAX_SAFE_INTEGER"
  shows "parsePageString (dec a @ ''-'' @ dec b) maxPage
           = Some (Inr (map (\<lambda>n. Fin (of_nat n)) [a - 1..<b]))
         \<and> for_body maxPage (dec a @ ''-'' @ dec b) pages
             = Some (Inr (foldl set_add pages (map (\<lambda>n. Fin (of_nat n)) [a - 1..<b])))
         \<and> set (foldl set_add pages (map (\<lambda>n. Fin (of_nat n)) [a - 1..<b]))
             = set pages \<union> (\<lambda>n. Fin (of_nat n)) ` {a - 1..<b}
         \<and> token_pages maxPage (dec a @ ''-'' @ dec b) = (\<lambda>n. Fin (of_nat n)) ` {a - 1..<b}"
proof -
  let ?t = "dec a @ ''-'' @ dec b" and ?xs = "map (\<lambda>n. Fin (of_nat n)) [a - 1..<b]"
  have b53: "b < 2 ^ 53" using assms(3,4) by (simp add: MAX_SAFE_INTEGER_def)
  have nosep: "CHR ''-'' \<notin> set (dec n)" "CHR '','' \<notin> set (dec n)" for n
    using dec_digits[of _ n] digit_not_sep by blast+
  have hy: "CHR ''-'' \<in> set ?t" by simp
  have sp: "split CHR ''-'' ?t = [dec a, dec b]"
    using nosep by (simp add: split_append_sep split_notin)
  have na: "Number (dec a) = Fin (of_nat a)" and nb: "Number (dec b) = Fin (of_nat b)"
    using assms(2) b53 by (simp_all add: Number_dec)
  have guard: "\<not> (isNaN (Fin (of_nat a)) \<or> isNaN (Fin (of_nat b))
                  \<or> js_gt (Fin (of_nat a)) (Fin (of_nat b)) \<or> js_lt (Fin (of_nat a)) (Fin 1)
                  \<or> js_gt (Fin (of_nat b)) (Fin (of_nat maxPage)))"
    using assms(1,2,3) by (simp add: isNaN_def js_gt_def)
  have body: "for_body maxPage ?t pages = Some (Inr (foldl set_add pages ?xs))" for pages
    unfolding for_body_def using hy guard
    by (simp only: sp list.map list.case na nb if_True if_False
        range_loop_nat[OF assms(1) b53] option.map)
  have "distinct ?xs" by (simp add: distinct_map inj_on_def)
  then have "foldl set_add [] ?xs = [] @ ?xs" by (rule foldl_set_add_fresh) simp
  then have fresh: "foldl set_add [] ?xs = ?xs" by simp
  have tp: "token_pages maxPage ?t = (\<lambda>n. Fin (of_nat n)) ` {a - 1..<b}"
    by (simp add: token_pages_def body set_foldl_set_add del: append.simps)
  have ne: "?xs \<noteq> []" using assms(1,2) by simp
  have tr: "trim ?t = ?t"
  proof (rule trim_id)
    show "?t \<noteq> []" by simp
    show "\<not> is_ws (hd ?t)" using dec_hd_last(1)[of a] by (simp add: digit_not_ws)
    show "\<not> is_ws (last ?t)" using dec_hd_last(2)[of b] by (simp add: digit_not_ws)
  qed
  have sc: "split CHR '','' ?t = [?t]" using nosep by (intro split_notin) simp
  have "\<forall>x\<in>set ?xs. rounded x" by (auto simp: on_grid_of_nat)
  with sorted_Fin_upt have so: "sort_cmp ?xs = ?xs" by (rule sort_cmp_sorted)
  have "for_parts maxPage [?t] [] = Some (Inr ?xs)"
    using body[of "[]"] fresh by (simp del: append.simps)
  then have parse: "parsePageString ?t maxPage = Some (Inr ?xs)"
    unfolding parsePageString_def sc using ne so by (simp add: tr del: append.simps)
  have st: "set (foldl set_add pages ?xs) = set pages \<union> (\<lambda>n. Fin (of_nat n)) ` {a - 1..<b}"
    by (simp add: set_foldl_set_add)
  from parse body st tp show ?thesis by blast
qed

lemma dec_3: "dec 3 = ''3''" by (simp add: dec.simps char_of_def bit_Suc_0_iff)
lemma dec_5: "dec 5 = ''5''" by (simp add: dec.simps char_of_def bit_Suc_0_iff)

theorem C1_valid_range_witness:
  "parsePageString ''3-5'' 10 = Some (Inr [Fin 2, Fin 3, Fin 4])
   \<and> for_body 10 ''3-5'' [Fin 3] = Some (Inr [Fin 3, Fin 2, Fin 4])"
proof -
  have h: "(1::nat) \<le> 3" "(3::nat) \<le> 5" "(5::nat) \<le> 10" "(10::nat) \<le> MAX_SAFE_INTEGER"
    by (simp_all add: MAX_SAFE_INTEGER_def)
  have u: "[3 - 1..<5] = [2, 3, 4::nat]" by (simp add: upt_rec)
  from C1_valid_range[OF h, of "[Fin 3]"] show ?thesis
    unfolding dec_3 dec_5 u by (simp add: set_add_def)
qed

section \<open>White space is tolerated\<close>

text \<open>
  C7: white space around the tokens and around the hyphen of a range is tolerated. Two
  inputs that read alike (the same tokens with the same hyphen-separated parts, white
  space at the ends of the parts aside) have the same outcome: the same returned
  sequence, or a failure, or no return; when the tokens themselves agree up to
  surrounding white space, the thrown message is the same too. Inserting white space at
  either end of an input, before or after a comma, or before or after a hyphen gives an
  input that reads alike. With ten pages, \<open>"1, 3-5, 8"\<close> yields 0, 2, 3, 4, 7.
\<close>

theorem C7_white_space_tolerated:
  "(pieces input' = pieces input \<longrightarrow>
      outcome (parsePageString input' maxPage) = outcome (parsePageString input maxPage))
   \<and> (map trim (split CHR '','' input') = map trim (split CHR '','' input) \<longrightarrow>
        parsePageString input' maxPage = parsePageString input maxPage)
   \<and> (list_all is_ws w \<longrightarrow>
        pieces (w @ s) = pieces s \<and> pieces (s @ w) = pieces s
        \<and> pieces (a @ w @ CHR '','' # b) = pieces (a @ CHR '','' # b)
        \<and> pieces (a @ CHR '','' # w @ b) = pieces (a @ CHR '','' # b)
        \<and> pieces (a @ w @ CHR ''-'' # b) = pieces (a @ CHR ''-'' # b)
        \<and> pieces (a @ CHR ''-'' # w @ b) = pieces (a @ CHR ''-'' # b))
   \<and> parsePageString ''1, 3-5, 8'' 10 = Some (Inr [Fin 0, Fin 2, Fin 3, Fin 4, Fin 7])"
proof -
  have A: "pieces input' = pieces input \<longrightarrow>
      outcome (parsePageString input' maxPage) = outcome (parsePageString input maxPage)"
    using parse_pieces by blast
  have B: "map trim (split CHR '','' input') = map trim (split CHR '','' input) \<longrightarrow>
        parsePageString input' maxPage = parsePageString input maxPage"
    using parse_tokens_eq by blast
  have C: "pieces (w @ s) = pieces s \<and> pieces (s @ w) = pieces s
        \<and> pieces (a @ w @ CHR '','' # b) = pieces (a @ CHR '','' # b)
        \<and> pieces (a @ CHR '','' # w @ b) = pieces (a @ CHR '','' # b)
        \<and> pieces (a @ w @ CHR ''-'' # b) = pieces (a @ CHR ''-'' # b)
        \<and> pieces (a @ CHR ''-'' # w @ b) = pieces (a @ CHR ''-'' # b)" if "list_all is_ws w"
    using pieces_ws_left[OF that] pieces_ws_right[OF that] pieces_ws_insert[OF that]
    by simp
  have D: "parsePageString ''1, 3-5, 8'' 10 = Some (Inr [Fin 0, Fin 2, Fin 3, Fin 4, Fin 7])"
    by (simp add: parse_eval number_eval)
  from A B C D show ?thesis by blast
qed

theorem C7_white_space_tolerated_witness:
  "parsePageString ''1,3-5,8'' 10 = Some (Inr [Fin 0, Fin 2, Fin 3, Fin 4, Fin 7])
   \<and> outcome (parsePageString '' 1 , 3 - 5 ,8 '' 10) = Some (Inr [Fin 0, Fin 2, Fin 3, Fin 4, Fin 7])
   \<and> parsePageString '' 9 ,4'' 5 = parsePageString ''9,4'' 5"
proof -
  have p: "parsePageString ''1,3-5,8'' 10 = Some (Inr [Fin 0, Fin 2, Fin 3, Fin 4, Fin 7])"
    by (simp add: parse_eval number_eval)
  have e: "pieces '' 1 , 3 - 5 ,8 '' = pieces ''1,3-5,8''"
    by (simp add: pieces_def trim_def is_ws_def)
  have t: "map trim (split CHR '','' '' 9 ,4'') = map trim (split CHR '','' ''9,4'')"
    by (simp add: trim_def is_ws_def)
  from C7_white_space_tolerated[of "'' 1 , 3 - 5 ,8 ''" "''1,3-5,8''" 10]
    C7_white_space_tolerated[of "'' 9 ,4''" "''9,4''" 5] p e t
  show ?thesis by simp
qed

section \<open>Tokens with more than one hyphen\<close>

text \<open>
  C10: a token with two or more hyphens is handled as the range of its first two
  hyphen-separated parts, the rest being discarded: the loop body does on
  \<open>p1-p2-rest\<close> what it does on \<open>p1-p2\<close> (returning the same set, or not returning), and
  where it throws, the message quotes the whole token. With at least three pages,
  \<open>"1-3-5"\<close> yields the indices 0, 1, 2, as \<open>"1-3"\<close> does.
\<close>

theorem C10_extra_parts_ignored:
  assumes "CHR ''-'' \<notin> set p1" and "CHR ''-'' \<notin> set p2"
  shows "for_body maxPage (p1 @ ''-'' @ p2 @ ''-'' @ rest) pages
           = map_option (map_sum (\<lambda>_. range_error (p1 @ ''-'' @ p2 @ ''-'' @ rest) maxPage) id)
               (for_body maxPage (p1 @ ''-'' @ p2) pages)
         \<and> (3 \<le> maxPage \<longrightarrow>
              parsePageString ''1-3-5'' maxPage = Some (Inr [Fin 0, Fin 1, Fin 2])
              \<and> parsePageString ''1-3'' maxPage = Some (Inr [Fin 0, Fin 1, Fin 2]))"
proof -
  have s3: "split CHR ''-'' (p1 @ ''-'' @ p2 @ ''-'' @ rest) = p1 # p2 # split CHR ''-'' rest"
    using assms by (simp add: split_append_sep)
  have s2: "split CHR ''-'' (p1 @ ''-'' @ p2) = [p1, p2]"
    using assms by (simp add: split_append_sep split_notin)
  have A: "for_body maxPage (p1 @ ''-'' @ p2 @ ''-'' @ rest) pages
           = map_option (map_sum (\<lambda>_. range_error (p1 @ ''-'' @ p2 @ ''-'' @ rest) maxPage) id)
               (for_body maxPage (p1 @ ''-'' @ p2) pages)"
    unfolding for_body_def s3 s2 by (simp add: option.map_comp comp_def)
  have B: "parsePageString ''1-3-5'' maxPage = Some (Inr [Fin 0, Fin 1, Fin 2])
           \<and> parsePageString ''1-3'' maxPage = Some (Inr [Fin 0, Fin 1, Fin 2])" if "3 \<le> maxPage"
  proof -
    have "(3::rat) \<le> of_nat maxPage" using that by (metis of_nat_le_iff of_nat_numeral)
    then have "\<not> (of_nat maxPage :: rat) < 3" by simp
    then show ?thesis by (simp add: parse_eval number_eval)
  qed
  from A B show ?thesis by blast
qed

theorem C10_extra_parts_ignored_witness:
  "for_body 3 ''1-3-5'' [] = Some (Inr [Fin 0, Fin 1, Fin 2])
   \<and> for_body 3 ''1-3'' [] = Some (Inr [Fin 0, Fin 1, Fin 2])
   \<and> parsePageString ''1-3-5'' 3 = Some (Inr [Fin 0, Fin 1, Fin 2])"
proof -
  have e: "for_body 3 ''1-3'' [] = Some (Inr [Fin 0, Fin 1, Fin 2])"
    by (simp add: parse_eval number_eval)
  from C10_extra_parts_ignored[of "''1''" "''3''" 3 "''5''" "[]"] e show ?thesis by simp
qed

section \<open>Failures of the document load\<close>

lemma str_includes_iff: "str_includes s sub \<longleftrightarrow> (\<exists>pre post. s = pre @ sub @ post)"
proof (induction s)
  case Nil
  then show ?case by auto
next
  case (Cons x xs)
  show ?case
  proof
    assume "str_includes (x # xs) sub"
    then consider "prefix sub (x # xs)" | "str_includes xs sub" by auto
    then show "\<exists>pre post. x # xs = pre @ sub @ post"
    proof cases
      case 1
      then obtain post where "x # xs = sub @ post" by (auto simp: prefix_def)
      then have "x # xs = [] @ sub @ post" by simp
      then show ?thesis by blast
    next
      case 2
      with Cons obtain pre post where "xs = pre @ sub @ post" by blast
      then have "x # xs = (x # pre) @ sub @ post" by simp
      then show ?thesis by blast
    qed
  next
    assume "\<exists>pre post. x # xs = pre @ sub @ post"
    then obtain pre post where eq: "x # xs = pre @ sub @ post" by blast
    show "str_includes (x # xs) sub"
    proof (cases pre)
      case Nil
      with eq have "prefix sub (x # xs)" by (simp add: prefix_def)
      then show ?thesis by simp
    next
      case (Cons y pre')
      with eq have "xs = pre' @ sub @ post" by simp
      with Cons.IH show ?thesis by auto
    qed
  qed
qed

lemma toLowerCase_append: "toLowerCase (a @ b) = toLowerCase a @ toLowerCase b"
  by (simp add: toLowerCase_def)

lemma toLowerCase_split:
  "toLowerCase m = a @ b \<Longrightarrow> \<exists>a' b'. m = a' @ b' \<and> toLowerCase a' = a \<and> toLowerCase b' = b"
  unfolding toLowerCase_def by (metis append_eq_map_conv)

lemma mentions_encrypted_iff:
  "str_includes (toLowerCase m) ''encrypted''
     \<longleftrightarrow> (\<exists>pre w post. m = pre @ w @ post \<and> toLowerCase w = ''encrypted'')"
proof
  assume "str_includes (toLowerCase m) ''encrypted''"
  then obtain a b where "toLowerCase m = a @ ''encrypted'' @ b"
    unfolding str_includes_iff by blast
  from toLowerCase_split[OF this] obtain a' r where m: "m = a' @ r"
    and r: "toLowerCase r = ''encrypted'' @ b" by blast
  from toLowerCase_split[OF r] obtain w b' where "r = w @ b'" "toLowerCase w = ''encrypted''"
    by blast
  with m show "\<exists>pre w post. m = pre @ w @ post \<and> toLowerCase w = ''encrypted''" by blast
next
  assume "\<exists>pre w post. m = pre @ w @ post \<and> toLowerCase w = ''encrypted''"
  then obtain pre w post where "m = pre @ w @ post" "toLowerCase w = ''encrypted''" by blast
  then have "toLowerCase m = toLowerCase pre @ ''encrypted'' @ toLowerCase post"
    by (simp add: toLowerCase_append)
  then show "str_includes (toLowerCase m) ''encrypted''"
    unfolding str_includes_iff by blast
qed

text \<open>
  C9: when the load of the selected file fails, \<open>handleFileSelect\<close> reports the
  password-protection message if the thrown value is a \<open>PDFInvalidPasswordError\<close> or its
  message contains the word "encrypted" in any letter case, and the message for an
  invalid or corrupted file for every other thrown value; the password test comes first
  and the two messages differ. The file is dropped and processing ends.
\<close>

theorem C9_load_failure_classified:
  assumes "\<not> isProcessing st" and "librariesReady st"
    and "(case arrayBuffer c selectedFile of Inl e \<Rightarrow> Inl e | Inr buf \<Rightarrow> load c buf) = Inl e"
  shows "error (handleFileSelect c st selectedFile)
           = Some (if ctor_name e = ''PDFInvalidPasswordError''
                      \<or> (\<exists>m pre w post. message e = Some m \<and> m = pre @ w @ post
                                         \<and> toLowerCase w = ''encrypted'')
                   then password_message else corrupt_message)
         \<and> pdfFile (handleFileSelect c st selectedFile) = None
         \<and> \<not> isProcessing (handleFileSelect c st selectedFile)
         \<and> password_message \<noteq> corrupt_message"
proof -
  have u: "userFriendlyError e
             = (if ctor_name e = ''PDFInvalidPasswordError''
                      \<or> (\<exists>m pre w post. message e = Some m \<and> m = pre @ w @ post
                                         \<and> toLowerCase w = ''encrypted'')
                then password_message else corrupt_message)"
  proof (cases "message e")
    case None
    then show ?thesis by (simp add: userFriendlyError_def)
  next
    case (Some m)
    have "m \<noteq> []" if "str_includes (toLowerCase m) ''encrypted''"
      using that by (auto simp: toLowerCase_def)
    then show ?thesis using Some mentions_encrypted_iff[of m]
      by (auto simp: userFriendlyError_def)
  qed
  have d: "password_message \<noteq> corrupt_message"
    by (simp add: password_message_def corrupt_message_def)
  show ?thesis using assms d unfolding u[symmetric]
    by (simp add: handleFileSelect_def Let_def)
qed

theorem C9_load_failure_classified_witness:
  "error (handleFileSelect encrypted_load ready_state ()) = Some password_message
   \<and> error (handleFileSelect broken_load ready_state ()) = Some corrupt_message"
proof -
  define e1 where "e1 = Thrown ''EncryptedPDFError'' (Some ''Input document is Encrypted'')"
  define e2 where "e2 = Thrown ''Error'' (Some ''Failed to parse PDF document'')"
  have st: "\<not> isProcessing ready_state" "librariesReady ready_state"
    by (simp_all add: ready_state_def)
  have l1: "(case arrayBuffer encrypted_load () of Inl e \<Rightarrow> Inl e
             | Inr buf \<Rightarrow> load encrypted_load buf) = Inl e1"
    by (simp add: encrypted_load_def e1_def)
  have l2: "(case arrayBuffer broken_load () of Inl e \<Rightarrow> Inl e
             | Inr buf \<Rightarrow> load broken_load buf) = Inl e2"
    by (simp add: broken_load_def e2_def)
  have w: "message e1 = Some ''Input document is Encrypted''
           \<and> ''Input document is Encrypted'' = ''Input document is '' @ ''Encrypted'' @ []
           \<and> toLowerCase ''Encrypted'' = ''encrypted''"
    by (simp add: e1_def toLowerCase_def lower_char_def char_of_def bit_Suc_0_iff)
  then have c1: "ctor_name e1 = ''PDFInvalidPasswordError''
                 \<or> (\<exists>m pre w post. message e1 = Some m \<and> m = pre @ w @ post
                                    \<and> toLowerCase w = ''encrypted'')"
    by blast
  have n: "\<not> (\<exists>pre w post. ''Failed to parse PDF document'' = pre @ w @ post
                 \<and> toLowerCase w = ''encrypted'')"
    using mentions_encrypted_iff[of "''Failed to parse PDF document''"]
    by (simp add: toLowerCase_def lower_char_def char_of_def bit_Suc_0_iff)
  have c2: "\<not> (ctor_name e2 = ''PDFInvalidPasswordError''
                 \<or> (\<exists>m pre w post. message e2 = Some m \<and> m = pre @ w @ post
                                    \<and> toLowerCase w = ''encrypted''))"
  proof
    assume "ctor_name e2 = ''PDFInvalidPasswordError''
                 \<or> (\<exists>m pre w post. message e2 = Some m \<and> m = pre @ w @ post
                                    \<and> toLowerCase w = ''encrypted'')"
    then consider (a) "ctor_name e2 = ''PDFInvalidPasswordError''"
      | (b) m pre w post where "message e2 = Some m" "m = pre @ w @ post"
          "toLowerCase w = ''encrypted''"
      by blast
    then show False
    proof cases
      case a
      then show ?thesis by (simp add: e2_def)
    next
      case b
      from b(1) have m: "''Failed to parse PDF document'' = m" by (simp add: e2_def)
      from b(2,3) have "\<exists>pre w post. ''Failed to parse PDF document'' = pre @ w @ post
                 \<and> toLowerCase w = ''encrypted''"
        unfolding m by (intro exI conjI)
      with n show ?thesis by (rule notE)
    qed
  qed
  from C9_load_failure_classified[OF st l1]
  have 1: "error (handleFileSelect encrypted_load ready_state ()) = Some password_message"
    unfolding if_P[OF c1] by (rule conjunct1)
  from C9_load_failure_classified[OF st l2]
  have 2: "error (handleFileSelect broken_load ready_state ()) = Some corrupt_message"
    unfolding if_not_P[OF c2] by (rule conjunct1)
  from 1 2 show ?thesis by (rule conjI)
qed

section \<open>Failures of the extraction\<close>

lemma parse_ready: "parsePageString ''1-2'' 3 = Some (Inr [Fin 0, Fin 1])"
  by (simp add: parse_eval number_eval)

lemma parse_nine: "parsePageString ''9'' 3
    = Some (Inl (''Invalid page: '' @ [CHR 0x22] @ ''9'' @ [CHR 0x22]
                   @ ''. Pages must be between 1 and 3.''))"
  by (simp add: parse_eval number_eval message_eval)

lemma token_error_not_Nil: "token_error maxPage part \<noteq> []"
  by (simp add: token_error_def range_error_def page_error_def)

lemma parse_error_not_Nil:
  assumes "parsePageString input maxPage = Some (Inl msg)"
  shows "msg \<noteq> []"
proof -
  from parse_error_token[OF assms] obtain part where "msg = token_error maxPage part" by blast
  then show ?thesis by (simp add: token_error_not_Nil)
qed

lemma catch_message_shown: "catch_message e = spec_shown_message e"
  by (cases "message e") (simp_all add: catch_message_def spec_shown_message_def unexpected_message_def)

text \<open>
  C8 as stated (a failure of loading, copying or saving surfaces as the generic message,
  and a collaborator's raw message is never passed through) does not hold: when
  \<open>PDFDocument.load\<close> throws an Error with the message "Failed to parse PDF document",
  \<open>handleExtract\<close> shows that very message.
\<close>

theorem C8_raw_message_counterexample:
  "load broken_load () = Inl (Thrown ''Error'' (Some ''Failed to parse PDF document''))
   \<and> map_option error (handleExtract broken_load ready_state)
       = Some (Some ''Failed to parse PDF document'')
   \<and> ''Failed to parse PDF document'' \<noteq> ''An unexpected error occurred during PDF processing.''"
proof -
  have "load broken_load () = Inl (Thrown ''Error'' (Some ''Failed to parse PDF document''))"
    by (simp add: broken_load_def)
  moreover have "map_option error (handleExtract broken_load ready_state)
       = Some (Some ''Failed to parse PDF document'')"
    by (simp add: handleExtract_def ready_state_def try_extract_def parse_ready broken_load_def
        catch_message_def)
  moreover have "''Failed to parse PDF document''
                   \<noteq> ''An unexpected error occurred during PDF processing.''"
    by simp
  ultimately show ?thesis by blast
qed

text \<open>
  C8, amended: every failure inside the \<open>try\<close> block of \<open>handleExtract\<close> ends in one
  message. An error of the parser is shown with the parser's message. A value thrown by
  \<open>arrayBuffer\<close>, \<open>load\<close>, \<open>copyPages\<close> or \<open>save\<close> is shown with its own message when
  it has a non-empty one, and with the generic "An unexpected error occurred during PDF
  processing." only when the message is missing or empty. In each case the output is
  cleared and processing ends; when nothing fails, the saved bytes and their URL are
  stored and no error is shown.
\<close>

theorem C8_failure_message:
  assumes "pdfFile st = Some f" and "\<not> isProcessing st"
  shows "(parsePageString (pageInput st) (totalPages st) = Some (Inl msg) \<longrightarrow>
            handleExtract c st
              = Some (st\<lparr>isProcessing := False, error := Some msg,
                         outputPdfUrl := None, outputPdfBytes := None\<rparr>))
         \<and> (parsePageString (pageInput st) (totalPages st) = Some (Inr pageIndices) \<longrightarrow>
              (arrayBuffer c f = Inl e \<longrightarrow>
                 handleExtract c st
                   = Some (st\<lparr>isProcessing := False, error := Some (spec_shown_message e),
                              outputPdfUrl := None, outputPdfBytes := None\<rparr>))
              \<and> (arrayBuffer c f = Inr buf \<longrightarrow>
                   (load c buf = Inl e \<longrightarrow>
                      handleExtract c st
                        = Some (st\<lparr>isProcessing := False, error := Some (spec_shown_message e),
                                   outputPdfUrl := None, outputPdfBytes := None\<rparr>))
                   \<and> (load c buf = Inr pdfDoc \<longrightarrow>
                        (copyPages c pdfDoc pageIndices = Inl e \<longrightarrow>
                           handleExtract c st
                             = Some (st\<lparr>isProcessing := False,
                                        error := Some (spec_shown_message e),
                                        outputPdfUrl := None, outputPdfBytes := None\<rparr>))
                        \<and> (copyPages c pdfDoc pageIndices = Inr copiedPages \<longrightarrow>
                             (save c copiedPages = Inl e \<longrightarrow>
                                handleExtract c st
                                  = Some (st\<lparr>isProcessing := False,
                                             error := Some (spec_shown_message e),
                                             outputPdfUrl := None, outputPdfBytes := None\<rparr>))
                             \<and> (save c copiedPages = Inr pdfBytes \<longrightarrow>
                                  handleExtract c st
                                    = Some (st\<lparr>isProcessing := False, error := None,
                                               outputPdfUrl := Some (createObjectURL c pdfBytes),
                                               outputPdfBytes := Some pdfBytes\<rparr>))))))"
proof -
  have P: "handleExtract c st
              = Some (st\<lparr>isProcessing := False, error := Some msg,
                         outputPdfUrl := None, outputPdfBytes := None\<rparr>)"
    if p: "parsePageString (pageInput st) (totalPages st) = Some (Inl msg)"
  proof -
    from parse_error_not_Nil[OF p] have "catch_message (Thrown ''Error'' (Some msg)) = msg"
      by (simp add: catch_message_def)
    then show ?thesis using assms p by (simp add: handleExtract_def try_extract_def)
  qed
  have Q: "parsePageString (pageInput st) (totalPages st) = Some (Inr pageIndices) \<longrightarrow>
              (arrayBuffer c f = Inl e \<longrightarrow>
                 handleExtract c st
                   = Some (st\<lparr>isProcessing := False, error := Some (spec_shown_message e),
                              outputPdfUrl := None, outputPdfBytes := None\<rparr>))
              \<and> (arrayBuffer c f = Inr buf \<longrightarrow>
                   (load c buf = Inl e \<longrightarrow>
                      handleExtract c st
                        = Some (st\<lparr>isProcessing := False, error := Some (spec_shown_message e),
                                   outputPdfUrl := None, outputPdfBytes := None\<rparr>))
                   \<and> (load c buf = Inr pdfDoc \<longrightarrow>
                        (copyPages c pdfDoc pageIndices = Inl e \<longrightarrow>
                           handleExtract c st
                             = Some (st\<lparr>isProcessing := False,
                                        error := Some (spec_shown_message e),
                                        outputPdfUrl := None, outputPdfBytes := None\<rparr>))
                        \<and> (copyPages c pdfDoc pageIndices = Inr copiedPages \<longrightarrow>
                             (save c copiedPages = Inl e \<longrightarrow>
                                handleExtract c st
                                  = Some (st\<lparr>isProcessing := False,
                                             error := Some (spec_shown_message e),
                                             outputPdfUrl := None, outputPdfBytes := None\<rparr>))
                             \<and> (save c copiedPages = Inr pdfBytes \<longrightarrow>
                                  handleExtract c st
                                    = Some (st\<lparr>isProcessing := False, error := None,
                                               outputPdfUrl := Some (createObjectURL c pdfBytes),
                                               outputPdfBytes := Some pdfBytes\<rparr>)))))"
    using assms by (simp add: handleExtract_def try_extract_def catch_message_shown)
  from P Q show ?thesis by blast
qed

theorem C8_failure_message_witness:
  "handleExtract broken_load ready_state
     = Some (ready_state\<lparr>isProcessing := False,
                          error := Some ''Failed to parse PDF document'',
                          outputPdfUrl := None, outputPdfBytes := None\<rparr>)
   \<and> handleExtract silent_buffer ready_state
       = Some (ready_state\<lparr>isProcessing := False,
                            error := Some ''An unexpected error occurred during PDF processing.'',
                            outputPdfUrl := None, outputPdfBytes := None\<rparr>)
   \<and> handleExtract broken_save ready_state
       = Some (ready_state\<lparr>isProcessing := False,
                            error := Some ''An unexpected error occurred during PDF processing.'',
                            outputPdfUrl := None, outputPdfBytes := None\<rparr>)
   \<and> handleExtract working (ready_state\<lparr>pageInput := ''9''\<rparr>)
       = Some (ready_state\<lparr>pageInput := ''9'', isProcessing := False,
                            error := Some (''Invalid page: '' @ [CHR 0x22] @ ''9'' @ [CHR 0x22]
                                             @ ''. Pages must be between 1 and 3.''),
                            outputPdfUrl := None, outputPdfBytes := None\<rparr>)
   \<and> handleExtract working ready_state
       = Some (ready_state\<lparr>isProcessing := False, error := None,
                            outputPdfUrl := Some (), outputPdfBytes := Some ()\<rparr>)"
proof -
  have s: "pdfFile ready_state = Some ()" "\<not> isProcessing ready_state"
    "pageInput ready_state = ''1-2''" "totalPages ready_state = 3"
    by (simp_all add: ready_state_def)
  have s9: "pdfFile (ready_state\<lparr>pageInput := ''9''\<rparr>) = Some ()"
    "\<not> isProcessing (ready_state\<lparr>pageInput := ''9''\<rparr>)"
    "pageInput (ready_state\<lparr>pageInput := ''9''\<rparr>) = ''9''"
    "totalPages (ready_state\<lparr>pageInput := ''9''\<rparr>) = 3"
    by (simp_all add: ready_state_def)
  have p: "parsePageString (pageInput ready_state) (totalPages ready_state)
             = Some (Inr [Fin 0, Fin 1])"
    unfolding s by (rule parse_ready)
  have p9: "parsePageString (pageInput (ready_state\<lparr>pageInput := ''9''\<rparr>))
              (totalPages (ready_state\<lparr>pageInput := ''9''\<rparr>))
             = Some (Inl (''Invalid page: '' @ [CHR 0x22] @ ''9'' @ [CHR 0x22]
                            @ ''. Pages must be between 1 and 3.''))"
    unfolding s9 by (rule parse_nine)
  have 1: "handleExtract broken_load ready_state
     = Some (ready_state\<lparr>isProcessing := False,
                          error := Some ''Failed to parse PDF document'',
                          outputPdfUrl := None, outputPdfBytes := None\<rparr>)"
    using C8_failure_message[OF s(1,2), of "[]" broken_load "[Fin 0, Fin 1]"
        "Thrown ''Error'' (Some ''Failed to parse PDF document'')" "()" "()" "[]" "()"] p
    by (simp add: broken_load_def spec_shown_message_def)
  have 2: "handleExtract silent_buffer ready_state
       = Some (ready_state\<lparr>isProcessing := False,
                            error := Some ''An unexpected error occurred during PDF processing.'',
                            outputPdfUrl := None, outputPdfBytes := None\<rparr>)"
    using C8_failure_message[OF s(1,2), of "[]" silent_buffer "[Fin 0, Fin 1]"
        "Thrown ''Object'' None" "()" "()" "[]" "()"] p
    by (simp add: silent_buffer_def spec_shown_message_def)
  have 3: "handleExtract broken_save ready_state
       = Some (ready_state\<lparr>isProcessing := False,
                            error := Some ''An unexpected error occurred during PDF processing.'',
                            outputPdfUrl := None, outputPdfBytes := None\<rparr>)"
    using C8_failure_message[OF s(1,2), of "[]" broken_save "[Fin 0, Fin 1]"
        "Thrown ''Error'' (Some [])" "()" "()" "[]" "()"] p
    by (simp add: broken_save_def spec_shown_message_def)
  have 4: "handleExtract working (ready_state\<lparr>pageInput := ''9''\<rparr>)
       = Some (ready_state\<lparr>pageInput := ''9'', isProcessing := False,
                            error := Some (''Invalid page: '' @ [CHR 0x22] @ ''9'' @ [CHR 0x22]
                                             @ ''. Pages must be between 1 and 3.''),
                            outputPdfUrl := None, outputPdfBytes := None\<rparr>)"
    using C8_failure_message[OF s9(1,2), of
        "''Invalid page: '' @ [CHR 0x22] @ ''9'' @ [CHR 0x22] @ ''. Pages must be between 1 and 3.''"
        working "[]" "Thrown [] None" "()" "()" "[]" "()"] p9
    by simp
  have 5: "handleExtract working ready_state
       = Some (ready_state\<lparr>isProcessing := False, error := None,
                            outputPdfUrl := Some (), outputPdfBytes := Some ()\<rparr>)"
    using C8_failure_message[OF s(1,2), of "[]" working "[Fin 0, Fin 1]"
        "Thrown [] None" "()" "()" "[]" "()"] p
    by (simp add: working_def)
  from 1 2 3 4 5 show ?thesis by (intro conjI)
qed

end
